theory Spec2Isabelle
  imports Main
begin

section \<open>Go integer arithmetic\<close>

text \<open>
  Go's \<^verbatim>\<open>int\<close> is a signed 64-bit integer on the platforms the program is built for. It
  is modelled as \<^typ>\<open>int\<close> with the wrap-around \<open>i64\<close> written out wherever an operand
  comes from a caller or grows by multiplication: the candidate position and rotation of
  a move, the position of the sub puyo, the chain bonus, the score and the lines cleared.
  Counters that advance by one from zero (\<^verbatim>\<open>ChainCount++\<close>, \<^verbatim>\<open>TotalChains++\<close>,
  \<^verbatim>\<open>GroundFrames++\<close>) and loop indices that stay inside the board or below a bound of
  their loop (\<^verbatim>\<open>x+1\<close>, \<^verbatim>\<open>writeY--\<close>, \<^verbatim>\<open>i++\<close>) cannot leave the range and are written
  plainly.
  Go's \<^verbatim>\<open>/\<close> and \<^verbatim>\<open>%\<close> truncate towards zero, unlike \<open>div\<close> and \<open>mod\<close> of
  HOL, which round down; they are written out here.
\<close>

definition i64 :: "int \<Rightarrow> int" where
  "i64 a = (a + 2 ^ 63) mod 2 ^ 64 - 2 ^ 63"

definition inInt64 :: "int \<Rightarrow> bool" where
  "inInt64 a = (- (2 ^ 63) \<le> a \<and> a < 2 ^ 63)"

text \<open>The same function for evaluation: inside the range nothing is computed.\<close>

lemma i64_code [code]:
  "i64 a = (if - 9223372036854775808 \<le> a \<and> a < 9223372036854775808 then a
            else (a + 9223372036854775808) mod 18446744073709551616 - 9223372036854775808)"
proof (cases "- 9223372036854775808 \<le> a \<and> a < 9223372036854775808")
  case True
  then have "0 \<le> a + 2 ^ 63" "a + 2 ^ 63 < 2 ^ 64" by simp_all
  then have "(a + 2 ^ 63) mod 2 ^ 64 = a + 2 ^ 63" by (rule mod_pos_pos_trivial)
  with True show ?thesis by (simp add: i64_def)
next
  case False
  then show ?thesis by (simp add: i64_def)
qed
definition go_div :: "int \<Rightarrow> int \<Rightarrow> int" where
  "go_div a b = sgn a * sgn b * (\<bar>a\<bar> div \<bar>b\<bar>)"

definition go_rem :: "int \<Rightarrow> int \<Rightarrow> int" where
  "go_rem a b = sgn a * (\<bar>a\<bar> mod \<bar>b\<bar>)"

section \<open>Data model (game.go)\<close>

datatype Color = Empty | Red | Green | Blue | Yellow | Purple

definition FieldWidth :: int where
  "FieldWidth = 6"

definition FieldHeight :: int where
  "FieldHeight = 12"

definition MinChain :: int where
  "MinChain = 4"

record Position =
  X :: int
  Y :: int

record Puyo =
  Color :: Color

record PuyoPair =
  Main :: Puyo
  Sub :: Puyo
  Pos :: Position
  Rotate :: int

text \<open>
  \<^verbatim>\<open>Grid [FieldHeight][FieldWidth]Color\<close> is a list of rows, row 0 on top; a grid of
  the Go type has exactly 12 rows of 6 cells, which \<open>wf_grid\<close> states.
\<close>

type_synonym grid = "Color list list"

record Field =
  Grid :: grid

definition wf_grid :: "grid \<Rightarrow> bool" where
  "wf_grid gr = (length gr = nat FieldHeight \<and> list_all (\<lambda>row. length row = nat FieldWidth) gr)"

definition NewField :: Field where
  "NewField = \<lparr>Grid = replicate (nat FieldHeight) (replicate (nat FieldWidth) Empty)\<rparr>"

text \<open>\<^verbatim>\<open>f.Grid[y][x]\<close> and \<^verbatim>\<open>f.Grid[y][x] = c\<close>, used where the source has checked the range.\<close>

definition cell :: "grid \<Rightarrow> int \<Rightarrow> int \<Rightarrow> Color" where
  "cell gr x y = gr ! nat y ! nat x"

definition set_cell :: "grid \<Rightarrow> int \<Rightarrow> int \<Rightarrow> Color \<Rightarrow> grid" where
  "set_cell gr x y c = gr[nat y := (gr ! nat y)[nat x := c]]"

definition IsValidPosition :: "Field \<Rightarrow> int \<Rightarrow> int \<Rightarrow> bool" where
  "IsValidPosition f x y =
     (if x < 0 \<or> x \<ge> FieldWidth \<or> y \<ge> FieldHeight then False
      else if y < 0 then True
      else cell (Grid f) x y = Empty)"

definition PlacePuyo :: "Field \<Rightarrow> int \<Rightarrow> int \<Rightarrow> Color \<Rightarrow> Field" where
  "PlacePuyo f x y color =
     (if x \<ge> 0 \<and> x < FieldWidth \<and> y \<ge> 0 \<and> y < FieldHeight
      then f\<lparr>Grid := set_cell (Grid f) x y color\<rparr>
      else f)"

definition GetSubPosition :: "PuyoPair \<Rightarrow> Position" where
  "GetSubPosition p =
     (if Rotate p = 0 then \<lparr>X = X (Pos p), Y = i64 (Y (Pos p) - 1)\<rparr>
      else if Rotate p = 1 then \<lparr>X = i64 (X (Pos p) + 1), Y = Y (Pos p)\<rparr>
      else if Rotate p = 2 then \<lparr>X = X (Pos p), Y = i64 (Y (Pos p) + 1)\<rparr>
      else if Rotate p = 3 then \<lparr>X = i64 (X (Pos p) - 1), Y = Y (Pos p)\<rparr>
      else \<lparr>X = X (Pos p), Y = i64 (Y (Pos p) - 1)\<rparr>)"

datatype GameState = StateNormal | StateClearing | StateDropping

text \<open>
  \<^verbatim>\<open>DropSpeed\<close> is a \<^verbatim>\<open>time.Duration\<close>. Below level 20 the source computes it in
  \<^verbatim>\<open>float64\<close>, as \<^verbatim>\<open>500ms / (1.0 + level * 0.1)\<close>; the model keeps that value
  symbolic (\<open>SpeedOfLevel level\<close>) instead of fixing a rounding.
\<close>

datatype Duration = Milliseconds int | SpeedOfLevel int

record HighScore =
  Score :: int
  Level :: int
  Chains :: int

text \<open>
  The pointers \<^verbatim>\<open>Field\<close>, \<^verbatim>\<open>Next\<close> and \<^verbatim>\<open>rand\<close> are set by \<^verbatim>\<open>NewGameWithColors\<close> and
  never nil afterwards, so the record holds their targets; \<^verbatim>\<open>Current\<close> is nil between
  a lock and the next spawn and is an option. The random source (\<^verbatim>\<open>math/rand\<close>, outside
  the repository) is the stream of its future raw draws.
\<close>

record Game =
  Field :: Field
  Current :: "PuyoPair option"
  Next :: PuyoPair
  Score :: int
  Level :: int
  GameOver :: bool
  Paused :: bool
  rand :: "nat \<Rightarrow> nat"
  ChainCount :: int
  TotalChains :: int
  LinesCleared :: int
  DropSpeed :: Duration
  HighScore :: "HighScore option"
  State :: GameState
  CurrentChainNum :: int
  GroundFrames :: int
  MaxGroundFrames :: int
  ColorCount :: int

definition TogglePause :: "Game \<Rightarrow> Game" where
  "TogglePause g =
     (if State g \<noteq> StateNormal \<or> GameOver g then g
      else g\<lparr>Paused := \<not> Paused g\<rparr>)"

text \<open>\<^verbatim>\<open>rand.Intn(n)\<close>: a draw in \<open>[0, n)\<close>, and the source advanced by one.\<close>

definition Intn :: "(nat \<Rightarrow> nat) \<Rightarrow> nat \<Rightarrow> nat \<times> (nat \<Rightarrow> nat)" where
  "Intn r n = (r 0 mod n, \<lambda>i. r (Suc i))"

definition generatePuyoPair :: "Game \<Rightarrow> PuyoPair \<times> Game" where
  "generatePuyoPair g =
     (let colors = (if ColorCount g = 4 then [Red, Green, Blue, Yellow]
                    else [Red, Green, Blue, Yellow, Purple]);
          (i, r1) = Intn (rand g) (length colors);
          (j, r2) = Intn r1 (length colors)
      in (\<lparr>Main = \<lparr>Color = colors ! i\<rparr>, Sub = \<lparr>Color = colors ! j\<rparr>,
           Pos = \<lparr>X = go_div FieldWidth 2, Y = 0\<rparr>, Rotate = 0\<rparr>,
          g\<lparr>rand := r2\<rparr>))"

definition SpawnNewPair :: "Game \<Rightarrow> Game" where
  "SpawnNewPair g =
     (let cur = Next g;
          (nxt, g1) = generatePuyoPair g;
          g2 = g1\<lparr>Current := Some cur, Next := nxt, ChainCount := 0\<rparr>;
          subPos = GetSubPosition cur
      in if \<not> IsValidPosition (Field g2) (X (Pos cur)) (Y (Pos cur)) \<or>
            \<not> IsValidPosition (Field g2) (X subPos) (Y subPos)
         then g2\<lparr>GameOver := True\<rparr>
         else g2)"

text \<open>
  \<^verbatim>\<open>NewGameWithColors\<close> seeds its random source from the clock; the source \<open>r\<close> it
  obtains is a parameter here. The struct literal leaves \<^verbatim>\<open>Next\<close> nil and the next
  statement assigns it; \<open>zeroPair\<close> stands for the nil in between and is never read.
\<close>

definition NewGameWithColors :: "int \<Rightarrow> (nat \<Rightarrow> nat) \<Rightarrow> Game" where
  "NewGameWithColors colorCount r =
     (let cc = (if colorCount \<noteq> 4 \<and> colorCount \<noteq> 5 then 4 else colorCount);
          zeroPair = \<lparr>Main = \<lparr>Color = Empty\<rparr>, Sub = \<lparr>Color = Empty\<rparr>,
                      Pos = \<lparr>X = 0, Y = 0\<rparr>, Rotate = 0\<rparr>;
          g = \<lparr>Field = NewField, Current = None, Next = zeroPair, Score = 0, Level = 1,
               GameOver = False, Paused = False, rand = r, ChainCount = 0,
               TotalChains = 0, LinesCleared = 0, DropSpeed = Milliseconds 500,
               HighScore = None, State = StateNormal, CurrentChainNum = 0,
               GroundFrames = 0, MaxGroundFrames = 32, ColorCount = cc\<rparr>;
          (nxt, g1) = generatePuyoPair g
      in SpawnNewPair (g1\<lparr>Next := nxt\<rparr>))"

definition NewGame :: "(nat \<Rightarrow> nat) \<Rightarrow> Game" where
  "NewGame r = NewGameWithColors 4 r"

section \<open>Movement, rotation and kicks\<close>

definition CanMove :: "int \<Rightarrow> int \<Rightarrow> int \<Rightarrow> Game \<Rightarrow> bool" where
  "CanMove dx dy rot g =
     (case Current g of
        None \<Rightarrow> False
      | Some cur \<Rightarrow>
          (let newX = i64 (X (Pos cur) + dx);
               newY = i64 (Y (Pos cur) + dy);
               newRotate = go_rem (i64 (i64 (Rotate cur + rot) + 4)) 4
           in if \<not> IsValidPosition (Field g) newX newY then False
              else (let testPair = \<lparr>Main = \<lparr>Color = Empty\<rparr>, Sub = \<lparr>Color = Empty\<rparr>,
                                    Pos = \<lparr>X = newX, Y = newY\<rparr>, Rotate = newRotate\<rparr>;
                        subPos = GetSubPosition testPair
                    in IsValidPosition (Field g) (X subPos) (Y subPos))))"

text \<open>
  The three assignments \<^verbatim>\<open>Pos.X += dx; Pos.Y += dy; Rotate = (Rotate + rotate + 4) % 4\<close>
  that every accepting branch of \<^verbatim>\<open>Move\<close> makes on the current pair.
\<close>

definition shiftPair :: "int \<Rightarrow> int \<Rightarrow> int \<Rightarrow> PuyoPair \<Rightarrow> PuyoPair" where
  "shiftPair dx dy rot p =
     p\<lparr>Pos := \<lparr>X = i64 (X (Pos p) + dx), Y = i64 (Y (Pos p) + dy)\<rparr>,
       Rotate := go_rem (i64 (i64 (Rotate p + rot) + 4)) 4\<rparr>"

definition shiftCurrent :: "int \<Rightarrow> int \<Rightarrow> int \<Rightarrow> Game \<Rightarrow> Game" where
  "shiftCurrent dx dy rot g = g\<lparr>Current := map_option (shiftPair dx dy rot) (Current g)\<rparr>"

definition Move :: "int \<Rightarrow> int \<Rightarrow> int \<Rightarrow> Game \<Rightarrow> bool \<times> Game" where
  "Move dx dy rot g =
     (if CanMove dx dy rot g then
        (let g1 = shiftCurrent dx dy rot g
         in (True, if dx \<noteq> 0 \<or> rot \<noteq> 0 then g1\<lparr>GroundFrames := 0\<rparr> else g1))
      else if rot \<noteq> 0 then
        (if CanMove (i64 (dx - 1)) dy rot g then
           (True, (shiftCurrent (i64 (dx - 1)) dy rot g)\<lparr>GroundFrames := 0\<rparr>)
         else if CanMove (i64 (dx + 1)) dy rot g then
           (True, (shiftCurrent (i64 (dx + 1)) dy rot g)\<lparr>GroundFrames := 0\<rparr>)
         else if CanMove dx (i64 (dy - 1)) rot g then
           (True, (shiftCurrent dx (i64 (dy - 1)) rot g)\<lparr>GroundFrames := 0\<rparr>)
         else (False, g))
      else (False, g))"

definition Drop :: "Game \<Rightarrow> bool \<times> Game" where
  "Drop g =
     (case Move 0 1 0 g of
        (True, g1) \<Rightarrow> (True, g1\<lparr>GroundFrames := 0\<rparr>)
      | (False, g1) \<Rightarrow> (False, g1))"

definition IsOnGround :: "Game \<Rightarrow> bool" where
  "IsOnGround g = (if Current g = None then False else \<not> CanMove 0 1 0 g)"

definition ShouldLock :: "Game \<Rightarrow> bool" where
  "ShouldLock g = (GroundFrames g \<ge> MaxGroundFrames g)"

text \<open>
  \<^verbatim>\<open>for g.Move(0, 1, 0) {}\<close>: the loop of \<^verbatim>\<open>HardDrop\<close>. Each accepted step moves the
  pair one row down and the board has a floor, which is the termination argument: the
  distance to row 11, counted modulo 2^64, goes down by one with each accepted step.
\<close>

lemma i64_mod: "i64 a mod 2 ^ 64 = a mod 2 ^ 64"
proof -
  have "i64 a mod 2 ^ 64 = ((a + 2 ^ 63) mod 2 ^ 64 - 2 ^ 63) mod 2 ^ 64" by (simp add: i64_def)
  also have "\<dots> = (a + 2 ^ 63 - 2 ^ 63) mod 2 ^ 64" by (rule mod_diff_left_eq)
  finally show ?thesis by simp
qed

lemma i64_cong: "a mod 2 ^ 64 = b mod 2 ^ 64 \<Longrightarrow> i64 a = i64 b"
proof -
  assume e: "a mod 2 ^ 64 = b mod 2 ^ 64"
  have "(a + 2 ^ 63) mod 2 ^ 64 = (a mod 2 ^ 64 + 2 ^ 63) mod 2 ^ 64" by (simp add: mod_add_left_eq)
  also have "\<dots> = (b mod 2 ^ 64 + 2 ^ 63) mod 2 ^ 64" by (simp only: e)
  also have "\<dots> = (b + 2 ^ 63) mod 2 ^ 64" by (simp add: mod_add_left_eq)
  finally show ?thesis by (simp add: i64_def)
qed

lemma i64_inInt64: "inInt64 (i64 a)"
proof -
  have "0 \<le> (a + 2 ^ 63) mod (2 ^ 64 :: int)" "(a + 2 ^ 63) mod (2 ^ 64 :: int) < 2 ^ 64"
    by simp_all
  then show ?thesis by (simp add: i64_def inInt64_def)
qed

lemma i64_id: "inInt64 a \<Longrightarrow> i64 a = a"
proof -
  assume "inInt64 a"
  then have "0 \<le> a + 2 ^ 63" "a + 2 ^ 63 < 2 ^ 64" by (simp_all add: inInt64_def)
  then have "(a + 2 ^ 63) mod 2 ^ 64 = a + 2 ^ 63" by (rule mod_pos_pos_trivial)
  then show ?thesis by (simp add: i64_def)
qed

lemma CanMove_down_bound:
  assumes "CanMove 0 1 0 g"
  shows "\<exists>cur. Current g = Some cur \<and> i64 (Y (Pos cur) + 1) < FieldHeight"
proof (cases "Current g")
  case None
  with assms show ?thesis by (simp add: CanMove_def)
next
  case (Some cur)
  with assms have "IsValidPosition (Field g) (i64 (X (Pos cur) + 0)) (i64 (Y (Pos cur) + 1))"
    by (auto simp: CanMove_def Let_def split: if_splits)
  then have "i64 (Y (Pos cur) + 1) < FieldHeight"
    by (auto simp: IsValidPosition_def split: if_splits)
  with Some show ?thesis by simp
qed

lemma Move_down_accepted:
  assumes "fst (Move 0 1 0 g)"
  shows "\<exists>cur. Current g = Some cur \<and> i64 (Y (Pos cur) + 1) < FieldHeight \<and>
           snd (Move 0 1 0 g) = g\<lparr>Current := Some (shiftPair 0 1 0 cur)\<rparr>"
proof -
  from assms have cm: "CanMove 0 1 0 g"
    by (auto simp: Move_def Let_def split: if_splits)
  then obtain cur where cur: "Current g = Some cur" "i64 (Y (Pos cur) + 1) < FieldHeight"
    using CanMove_down_bound by blast
  from cm cur show ?thesis by (simp add: Move_def shiftCurrent_def)
qed

definition floorDistance :: "Game \<Rightarrow> nat" where
  "floorDistance g =
     (case Current g of None \<Rightarrow> 0 | Some cur \<Rightarrow> nat ((FieldHeight - 1 - Y (Pos cur)) mod 2 ^ 64))"

lemma floorDistance_step:
  assumes "i64 (y + 1) < 12"
  shows "(11 - i64 (y + 1)) mod 2 ^ 64 < (11 - y) mod (2 ^ 64 :: int)"
proof -
  let ?m = "2 ^ 64 :: int"
  have r: "inInt64 (i64 (y + 1))" by (rule i64_inInt64)
  have "(11 - i64 (y + 1)) mod ?m = (11 - i64 (y + 1) mod ?m) mod ?m" by (simp add: mod_diff_right_eq)
  also have "\<dots> = (11 - (y + 1) mod ?m) mod ?m" by (simp only: i64_mod)
  also have "\<dots> = (11 - (y + 1)) mod ?m" by (simp add: mod_diff_right_eq)
  finally have e: "(11 - i64 (y + 1)) mod ?m = ((11 - y) - 1) mod ?m" by (simp add: algebra_simps)
  have nz: "(11 - y) mod ?m \<noteq> 0"
  proof
    assume z: "(11 - y) mod ?m = 0"
    then have "((11 - y) - 1) mod ?m = (0 - 1) mod ?m" by (metis mod_diff_left_eq)
    with e have "(11 - i64 (y + 1)) mod ?m = ?m - 1" by simp
    moreover from assms r have "0 \<le> 11 - i64 (y + 1)" "11 - i64 (y + 1) < ?m"
      by (simp_all add: inInt64_def)
    then have "(11 - i64 (y + 1)) mod ?m = 11 - i64 (y + 1)" by (rule mod_pos_pos_trivial)
    ultimately have "i64 (y + 1) = 12 - ?m" by simp
    with r show False by (simp add: inInt64_def)
  qed
  have p: "0 \<le> (11 - y) mod ?m" "(11 - y) mod ?m < ?m" by simp_all
  have "((11 - y) - 1) mod ?m = ((11 - y) mod ?m - 1) mod ?m" by (simp add: mod_diff_left_eq)
  also have "\<dots> = (11 - y) mod ?m - 1"
    using nz p by (intro mod_pos_pos_trivial) simp_all
  finally show ?thesis using e by simp
qed

function hardDropLoop :: "Game \<Rightarrow> Game" where
  "hardDropLoop g =
     (if fst (Move 0 1 0 g) then hardDropLoop (snd (Move 0 1 0 g)) else snd (Move 0 1 0 g))"
  by pat_completeness auto
termination
proof (relation "measure floorDistance")
  show "wf (measure floorDistance)" by simp
next
  fix g
  assume "fst (Move 0 1 0 g)"
  then obtain cur where cur: "Current g = Some cur" "i64 (Y (Pos cur) + 1) < FieldHeight"
    "snd (Move 0 1 0 g) = g\<lparr>Current := Some (shiftPair 0 1 0 cur)\<rparr>"
    using Move_down_accepted by blast
  from cur(2) have "(11 - i64 (Y (Pos cur) + 1)) mod 2 ^ 64 < (11 - Y (Pos cur)) mod (2 ^ 64 :: int)"
    by (intro floorDistance_step) (simp add: FieldHeight_def)
  moreover have "0 \<le> (11 - i64 (Y (Pos cur) + 1)) mod (2 ^ 64 :: int)" by simp
  ultimately show "(snd (Move 0 1 0 g), g) \<in> measure floorDistance"
    using cur(1,3) by (simp add: floorDistance_def shiftPair_def FieldHeight_def)
qed

declare hardDropLoop.simps [simp del]

definition HardDrop :: "Game \<Rightarrow> Game" where
  "HardDrop g = (let g1 = hardDropLoop g in g1\<lparr>GroundFrames := MaxGroundFrames g1\<rparr>)"

definition LockPair :: "Game \<Rightarrow> Game" where
  "LockPair g =
     (case Current g of
        None \<Rightarrow> g
      | Some cur \<Rightarrow>
          (let f1 = PlacePuyo (Field g) (X (Pos cur)) (Y (Pos cur)) (Color (Main cur));
               subPos = GetSubPosition cur;
               f2 = PlacePuyo f1 (X subPos) (Y subPos) (Color (Sub cur))
           in g\<lparr>Field := f2, Current := None, GroundFrames := 0, State := StateDropping,
                ChainCount := 0, CurrentChainNum := 0\<rparr>))"

section \<open>Chain resolver\<close>

text \<open>
  The cells of the board, as positions. \<^verbatim>\<open>map[Position]bool\<close> is only ever given the
  value \<^verbatim>\<open>true\<close>, so a visited map is the set of its keys and \<^verbatim>\<open>len\<close> is \<open>card\<close>.
\<close>

definition inBoard :: "Position \<Rightarrow> bool" where
  "inBoard p = (0 \<le> X p \<and> X p < FieldWidth \<and> 0 \<le> Y p \<and> Y p < FieldHeight)"

definition boardCells :: "Position set" where
  "boardCells = (\<lambda>(x, y). \<lparr>X = x, Y = y\<rparr>) ` ({0..FieldWidth - 1} \<times> {0..FieldHeight - 1})"

lemma finite_boardCells: "finite boardCells"
  by (simp add: boardCells_def)

lemma inBoard_boardCells: "inBoard p \<longleftrightarrow> p \<in> boardCells"
proof
  assume ib: "inBoard p"
  obtain x y where p: "p = \<lparr>X = x, Y = y\<rparr>" by (cases p)
  from ib p have "(x, y) \<in> {0..FieldWidth - 1} \<times> {0..FieldHeight - 1}"
    by (auto simp: inBoard_def)
  then show "p \<in> boardCells"
    unfolding boardCells_def p by (rule image_eqI[rotated]) simp
next
  assume "p \<in> boardCells"
  then show "inBoard p" by (auto simp: boardCells_def inBoard_def)
qed

text \<open>
  \<^verbatim>\<open>findConnectedGroup\<close> recurses into the four neighbours, each call continuing on the
  map the previous one returned. The recursion is nested, so termination needs that a
  call never forgets a visited cell; the measure is the number of unvisited board cells.
\<close>

function findConnectedGroup :: "grid \<Rightarrow> int \<Rightarrow> int \<Rightarrow> Color \<Rightarrow> Position set \<Rightarrow> Position set" where
  "findConnectedGroup gr x y color visited =
     (if x < 0 \<or> x \<ge> FieldWidth \<or> y < 0 \<or> y \<ge> FieldHeight then visited
      else if cell gr x y \<noteq> color \<or> \<lparr>X = x, Y = y\<rparr> \<in> visited then visited
      else (let v0 = insert \<lparr>X = x, Y = y\<rparr> visited;
                v1 = findConnectedGroup gr (x + 1) y color v0;
                v2 = findConnectedGroup gr (x - 1) y color v1;
                v3 = findConnectedGroup gr x (y + 1) color v2;
                v4 = findConnectedGroup gr x (y - 1) color v3
            in v4))"
  by pat_completeness auto

lemma findConnectedGroup_grows:
  "findConnectedGroup_dom (gr, x, y, color, visited) \<Longrightarrow>
     visited \<subseteq> findConnectedGroup gr x y color visited"
proof (induct gr x y color visited rule: findConnectedGroup.pinduct)
  case (1 gr x y color visited)
  show ?case
  proof (cases "x < 0 \<or> x \<ge> FieldWidth \<or> y < 0 \<or> y \<ge> FieldHeight \<or> cell gr x y \<noteq> color \<or> \<lparr>X = x, Y = y\<rparr> \<in> visited")
    case True
    then show ?thesis using "1.hyps"(1) by (auto simp: findConnectedGroup.psimps)
  next
    case False
    define v0 where "v0 = insert \<lparr>X = x, Y = y\<rparr> visited"
    define v1 where "v1 = findConnectedGroup gr (x + 1) y color v0"
    define v2 where "v2 = findConnectedGroup gr (x - 1) y color v1"
    define v3 where "v3 = findConnectedGroup gr x (y + 1) color v2"
    define v4 where "v4 = findConnectedGroup gr x (y - 1) color v3"
    from False have a: "\<not> (x < 0 \<or> x \<ge> FieldWidth \<or> y < 0 \<or> y \<ge> FieldHeight)"
      and b: "\<not> (cell gr x y \<noteq> color \<or> \<lparr>X = x, Y = y\<rparr> \<in> visited)" by auto
    have r: "findConnectedGroup gr x y color visited = v4"
      using False "1.hyps"(1) by (simp add: findConnectedGroup.psimps Let_def v0_def v1_def v2_def v3_def v4_def)
    have "v0 \<subseteq> v1" unfolding v1_def using "1.hyps"(2)[OF a b v0_def] .
    moreover have "v1 \<subseteq> v2" unfolding v2_def using "1.hyps"(3)[OF a b v0_def v1_def] .
    moreover have "v2 \<subseteq> v3" unfolding v3_def using "1.hyps"(4)[OF a b v0_def v1_def v2_def] .
    moreover have "v3 \<subseteq> v4" unfolding v4_def using "1.hyps"(5)[OF a b v0_def v1_def v2_def v3_def] .
    ultimately show ?thesis unfolding r v0_def by blast
  qed
qed

termination findConnectedGroup
proof (relation "measure (\<lambda>(gr, x, y, color, visited). card (boardCells - visited))")
  show "wf (measure (\<lambda>(gr, x, y, color, visited). card (boardCells - visited)))" by simp
next
  fix gr :: grid and x y :: int and color :: Color and visited v0 :: "Position set"
  assume a: "\<not> (x < 0 \<or> FieldWidth \<le> x \<or> y < 0 \<or> FieldHeight \<le> y)"
    and b: "\<not> (cell gr x y \<noteq> color \<or> \<lparr>X = x, Y = y\<rparr> \<in> visited)"
    and v0: "v0 = insert \<lparr>X = x, Y = y\<rparr> visited"
  have pin: "\<lparr>X = x, Y = y\<rparr> \<in> boardCells - visited"
    using a b by (simp add: inBoard_boardCells[symmetric] inBoard_def)
  have lt: "card (boardCells - v0) < card (boardCells - visited)"
    unfolding v0 using pin finite_boardCells
    by (metis Diff_insert card_Diff1_less finite_Diff)
  show "((gr, x + 1, y, color, v0), gr, x, y, color, visited) \<in> measure (\<lambda>(gr, x, y, color, visited). card (boardCells - visited))"
    using lt by simp
  have le: "\<And>v. v0 \<subseteq> v \<Longrightarrow> card (boardCells - v) < card (boardCells - visited)"
  proof -
    fix v assume "v0 \<subseteq> v"
    then have "boardCells - v \<subseteq> boardCells - v0" by blast
    then have "card (boardCells - v) \<le> card (boardCells - v0)"
      using finite_boardCells by (simp add: card_mono)
    with lt show "card (boardCells - v) < card (boardCells - visited)" by simp
  qed
  fix v1 assume v1: "v1 = findConnectedGroup gr (x + 1) y color v0"
    and d1: "findConnectedGroup_dom (gr, x + 1, y, color, v0)"
  have s1: "v0 \<subseteq> v1" unfolding v1 using findConnectedGroup_grows[OF d1] .
  show "((gr, x - 1, y, color, v1), gr, x, y, color, visited) \<in> measure (\<lambda>(gr, x, y, color, visited). card (boardCells - visited))"
    using le[OF s1] by simp
  fix v2 assume v2: "v2 = findConnectedGroup gr (x - 1) y color v1"
    and d2: "findConnectedGroup_dom (gr, x - 1, y, color, v1)"
  have s2: "v0 \<subseteq> v2" using s1 findConnectedGroup_grows[OF d2] unfolding v2 by blast
  show "((gr, x, y + 1, color, v2), gr, x, y, color, visited) \<in> measure (\<lambda>(gr, x, y, color, visited). card (boardCells - visited))"
    using le[OF s2] by simp
  fix v3 assume v3: "v3 = findConnectedGroup gr x (y + 1) color v2"
    and d3: "findConnectedGroup_dom (gr, x, y + 1, color, v2)"
  have s3: "v0 \<subseteq> v3" using s2 findConnectedGroup_grows[OF d3] unfolding v3 by blast
  show "((gr, x, y - 1, color, v3), gr, x, y, color, visited) \<in> measure (\<lambda>(gr, x, y, color, visited). card (boardCells - visited))"
    using le[OF s3] by simp
qed


declare findConnectedGroup.simps [simp del]

text \<open>
  \<^verbatim>\<open>for p := range group { g.Field.Grid[p.Y][p.X] = Empty }\<close>: Go leaves the order of
  the iteration open and the writes do not depend on it; every cell whose position is in
  the group becomes Empty.
\<close>

definition clearGroup :: "Position set \<Rightarrow> grid \<Rightarrow> grid" where
  "clearGroup grp gr =
     map (\<lambda>(y, row). map (\<lambda>(x, c). if \<lparr>X = int x, Y = int y\<rparr> \<in> grp then Empty else c)
                          (enumerate 0 row))
         (enumerate 0 gr)"

text \<open>The positions in the order of the two nested loops: rows from the top, each left to right.\<close>

definition scanOrder :: "Position list" where
  "scanOrder = concat (map (\<lambda>y. map (\<lambda>x. \<lparr>X = x, Y = y\<rparr>) [0..FieldWidth - 1]) [0..FieldHeight - 1])"

text \<open>The body of the loops of \<^verbatim>\<open>clearPuyos\<close>, on the grid, the visited map and the flag.\<close>

definition clearStep :: "Position \<Rightarrow> grid \<times> Position set \<times> bool \<Rightarrow> grid \<times> Position set \<times> bool" where
  "clearStep p st =
     (case st of (gr, visited, cleared) \<Rightarrow>
        if cell gr (X p) (Y p) \<noteq> Empty \<and> p \<notin> visited then
          (let grp = findConnectedGroup gr (X p) (Y p) (cell gr (X p) (Y p)) {};
               visited1 = visited \<union> grp
           in if int (card grp) \<ge> MinChain then (clearGroup grp gr, visited1, True)
              else (gr, visited1, cleared))
        else (gr, visited, cleared))"

definition clearGrid :: "grid \<Rightarrow> grid \<times> Position set \<times> bool" where
  "clearGrid gr = fold clearStep scanOrder (gr, {}, False)"

definition clearPuyos :: "Game \<Rightarrow> bool \<times> Game" where
  "clearPuyos g =
     (case clearGrid (Grid (Field g)) of
        (gr, visited, cleared) \<Rightarrow> (cleared, g\<lparr>Field := (Field g)\<lparr>Grid := gr\<rparr>\<rparr>))"

text \<open>The loops of \<^verbatim>\<open>hasClearablePuyos\<close>, which return at the first group that is large enough.\<close>

fun hasClearableFrom :: "grid \<Rightarrow> Position list \<Rightarrow> Position set \<Rightarrow> bool" where
  "hasClearableFrom gr [] visited = False"
| "hasClearableFrom gr (p # ps) visited =
     (if cell gr (X p) (Y p) \<noteq> Empty \<and> p \<notin> visited then
        (let grp = findConnectedGroup gr (X p) (Y p) (cell gr (X p) (Y p)) {}
         in if int (card grp) \<ge> MinChain then True
            else hasClearableFrom gr ps (visited \<union> grp))
      else hasClearableFrom gr ps visited)"

definition hasClearablePuyos :: "Game \<Rightarrow> bool" where
  "hasClearablePuyos g = hasClearableFrom (Grid (Field g)) scanOrder {}"

text \<open>
  \<^verbatim>\<open>applyGravity\<close>: for each column, the rows from the bottom up, with the write cursor
  \<^verbatim>\<open>writeY\<close> carried along.
\<close>

definition gravityStep :: "int \<Rightarrow> int \<Rightarrow> grid \<times> int \<Rightarrow> grid \<times> int" where
  "gravityStep x y st =
     (case st of (gr, writeY) \<Rightarrow>
        if cell gr x y \<noteq> Empty then
          ((if writeY \<noteq> y then set_cell (set_cell gr x writeY (cell gr x y)) x y Empty else gr),
           writeY - 1)
        else (gr, writeY))"

definition gravityColumn :: "int \<Rightarrow> grid \<Rightarrow> grid" where
  "gravityColumn x gr = fst (fold (gravityStep x) (rev [0..FieldHeight - 1]) (gr, FieldHeight - 1))"

definition gravityGrid :: "grid \<Rightarrow> grid" where
  "gravityGrid gr = fold gravityColumn [0..FieldWidth - 1] gr"

definition applyGravity :: "Game \<Rightarrow> Game" where
  "applyGravity g = g\<lparr>Field := (Field g)\<lparr>Grid := gravityGrid (Grid (Field g))\<rparr>\<rparr>"

section \<open>Score engine\<close>

text \<open>\<^verbatim>\<open>for i := 1; i < g.ChainCount; i++ { chainBonus *= 2 }\<close>\<close>

function chainBonusLoop :: "int \<Rightarrow> int \<Rightarrow> int \<Rightarrow> int" where
  "chainBonusLoop i n chainBonus =
     (if i < n then chainBonusLoop (i + 1) n (i64 (chainBonus * 2)) else chainBonus)"
  by pat_completeness auto
termination
  by (relation "measure (\<lambda>(i, n, chainBonus). nat (n - i))") auto

declare chainBonusLoop.simps [simp del]

definition calculateScore :: "Game \<Rightarrow> Game" where
  "calculateScore g =
     (if ChainCount g > 0 then
        (let chainBonus = chainBonusLoop 1 (ChainCount g) 1;
             g1 = g\<lparr>Score := i64 (Score g + i64 (i64 (100 * chainBonus) * ChainCount g)),
                    LinesCleared := i64 (LinesCleared g + ChainCount g)\<rparr>;
             newLevel = i64 (go_div (LinesCleared g1) 10 + 1)
         in if newLevel > Level g1 then
              (let g2 = g1\<lparr>Level := newLevel\<rparr>
               in if Level g2 < 20 then g2\<lparr>DropSpeed := SpeedOfLevel (Level g2)\<rparr>
                  else g2\<lparr>DropSpeed := Milliseconds 100\<rparr>)
            else g1)
      else g)"

section \<open>The resolution state machine\<close>

definition ProcessChainStep :: "Game \<Rightarrow> bool \<times> Game" where
  "ProcessChainStep g =
     (case State g of
        StateDropping \<Rightarrow>
          (let g1 = applyGravity g
           in if hasClearablePuyos g1 then
                (True, g1\<lparr>State := StateClearing, ChainCount := ChainCount g1 + 1,
                         CurrentChainNum := ChainCount g1 + 1\<rparr>)
              else (False, SpawnNewPair ((calculateScore g1)\<lparr>State := StateNormal\<rparr>)))
      | StateClearing \<Rightarrow>
          (case clearPuyos g of
             (cleared, g1) \<Rightarrow>
               (True, (if cleared then g1\<lparr>TotalChains := TotalChains g1 + 1\<rparr> else g1)
                        \<lparr>State := StateDropping\<rparr>))
      | StateNormal \<Rightarrow> (False, g))"

section \<open>The scheduler (ui.go)\<close>

text \<open>
  \<^verbatim>\<open>UI.Run\<close> selects over three tickers and the key events; each branch of the select is
  a function of the game here, drawing and the ticker resets left out. The keys are the
  ones that reach a core command; quit ends the loop and restart builds a fresh game.
\<close>

datatype Key = KeyLeft | KeyRight | KeyDown | RuneZ | RuneX | RuneP

definition lockIfDue :: "Game \<Rightarrow> Game" where
  "lockIfDue g = (if ShouldLock g then LockPair g else g)"

definition onDropTick :: "Game \<Rightarrow> Game" where
  "onDropTick g =
     (if \<not> GameOver g \<and> \<not> Paused g \<and> State g = StateNormal
      then lockIfDue (snd (Drop g))
      else g)"

definition onFrameTick :: "Game \<Rightarrow> Game" where
  "onFrameTick g =
     (if \<not> GameOver g \<and> \<not> Paused g \<and> State g = StateNormal then
        (if IsOnGround g then lockIfDue (g\<lparr>GroundFrames := GroundFrames g + 1\<rparr>) else g)
      else g)"

definition onChainTick :: "Game \<Rightarrow> Game" where
  "onChainTick g =
     (if \<not> GameOver g \<and> \<not> Paused g \<and> State g \<noteq> StateNormal
      then snd (ProcessChainStep g)
      else g)"

definition onKey :: "Key \<Rightarrow> Game \<Rightarrow> Game" where
  "onKey k g =
     (if k = RuneP then TogglePause g
      else if GameOver g then g
      else if State g \<noteq> StateNormal \<or> Paused g then g
      else (case k of
              KeyLeft \<Rightarrow> snd (Move (- 1) 0 0 g)
            | KeyRight \<Rightarrow> snd (Move 1 0 0 g)
            | KeyDown \<Rightarrow> lockIfDue (snd (Drop g))
            | RuneZ \<Rightarrow> snd (Move 0 0 (- 1) g)
            | RuneX \<Rightarrow> snd (Move 0 0 1 g)
            | RuneP \<Rightarrow> g))"

section \<open>High score (highscore.go)\<close>


section \<open>Specification-side definitions\<close>

text \<open>
  The move request in the words of the design. The board query: a position left or right
  of the board or below it is invalid, one above the board is valid, one on the board is
  valid when its cell is Empty. The sub cell lies up, right, down or left of the main
  cell for rotation 0, 1, 2, 3. A candidate (main position and rotation) validates when
  its main cell and its sub cell both do. The request recomputes position and rotation
  (a cyclic index) and is accepted with them when the candidate validates; when the
  rotation is not zero and the base candidate fails, the shifts (-1,0), (+1,0), (0,-1)
  are tried in this order on top of (dx, dy), the first candidate that validates is
  accepted, and otherwise nothing changes. An accepted request with nonzero dx or
  rotation resets the lock-delay counter.
\<close>

definition kickShifts :: "(int \<times> int) list" where
  "kickShifts = [(- 1, 0), (1, 0), (0, - 1)]"

definition boardQuery_spec :: "grid \<Rightarrow> int \<Rightarrow> int \<Rightarrow> bool" where
  "boardQuery_spec gr x y =
     (0 \<le> x \<and> x < FieldWidth \<and> y < FieldHeight \<and> (y < 0 \<or> cell gr x y = Empty))"

definition subOffset_spec :: "int \<Rightarrow> int \<times> int" where
  "subOffset_spec r =
     (if r = 0 then (0, - 1) else if r = 1 then (1, 0) else if r = 2 then (0, 1) else (- 1, 0))"

definition validates_spec :: "grid \<Rightarrow> int \<times> int \<times> int \<Rightarrow> bool" where
  "validates_spec gr c =
     (case c of (x, y, r) \<Rightarrow>
        boardQuery_spec gr x y
        \<and> boardQuery_spec gr (x + fst (subOffset_spec r)) (y + snd (subOffset_spec r)))"

definition Move_spec :: "int \<Rightarrow> int \<Rightarrow> int \<Rightarrow> Game \<Rightarrow> bool \<times> Game" where
  "Move_spec dx dy drot g =
     (case Current g of
        None \<Rightarrow> (False, g)
      | Some cur \<Rightarrow>
          (let gr = Grid (Field g);
               candidate = (\<lambda>(sx, sy). (X (Pos cur) + dx + sx, Y (Pos cur) + dy + sy,
                                          (Rotate cur + drot) mod 4));
               accept = (\<lambda>(x, y, r) counter.
                           (True, g\<lparr>Current := Some (cur\<lparr>Pos := \<lparr>X = x, Y = y\<rparr>, Rotate := r\<rparr>),
                                   GroundFrames := counter\<rparr>))
           in if validates_spec gr (candidate (0, 0)) then
                accept (candidate (0, 0)) (if dx \<noteq> 0 \<or> drot \<noteq> 0 then 0 else GroundFrames g)
              else if drot = 0 then (False, g)
              else (case find (\<lambda>s. validates_spec gr (candidate s)) kickShifts of
                      None \<Rightarrow> (False, g)
                    | Some s \<Rightarrow> accept (candidate s) 0)))"

text \<open>
  The requests on which machine arithmetic and the arithmetic of the design agree: the
  pair's rotation is one of 0..3, the rotation asked for is at least -4, and positions
  and offsets are far from the ends of the 64-bit range. The scheduler asks for -1, 0
  or 1 only.
\<close>

definition plainRequest :: "Game \<Rightarrow> int \<Rightarrow> int \<Rightarrow> int \<Rightarrow> bool" where
  "plainRequest g dx dy drot =
     ((case Current g of
         None \<Rightarrow> True
       | Some cur \<Rightarrow> 0 \<le> Rotate cur \<and> Rotate cur \<le> 3
                     \<and> \<bar>X (Pos cur)\<bar> < 2 ^ 61 \<and> \<bar>Y (Pos cur)\<bar> < 2 ^ 61)
      \<and> \<bar>dx\<bar> < 2 ^ 61 \<and> \<bar>dy\<bar> < 2 ^ 61 \<and> - 4 \<le> drot \<and> drot < 2 ^ 61)"

text \<open>One step of the loop of \<^verbatim>\<open>HardDrop\<close>: the state a pure downward move leaves.\<close>

definition downStep :: "Game \<Rightarrow> Game" where
  "downStep g = snd (Move 0 1 0 g)"

text \<open>
  The level is in step with the lines cleared. \<^verbatim>\<open>NewGameWithColors\<close> starts with level 1
  and no lines, and \<^verbatim>\<open>calculateScore\<close>, the only writer of both, keeps them in step as long
  as the lines cleared fit in an int64.
\<close>

definition levelInStep :: "Game \<Rightarrow> bool" where
  "levelInStep g = (0 \<le> LinesCleared g \<and> Level g = LinesCleared g div 10 + 1)"

text \<open>
  Connected groups in the words of the design: two board cells are adjacent when they are
  4-neighbours, and the group of a cell is every cell reachable from it through adjacent
  board cells of its colour.
\<close>

definition colored :: "grid \<Rightarrow> Color \<Rightarrow> Position \<Rightarrow> bool" where
  "colored gr c p = (inBoard p \<and> cell gr (X p) (Y p) = c)"

definition adjacent :: "Position \<Rightarrow> Position \<Rightarrow> bool" where
  "adjacent p q = (\<bar>X p - X q\<bar> + \<bar>Y p - Y q\<bar> = 1)"

definition sameColorAdj :: "grid \<Rightarrow> Color \<Rightarrow> (Position \<times> Position) set" where
  "sameColorAdj gr c = {(p, q). colored gr c p \<and> colored gr c q \<and> adjacent p q}"

definition connectedGroup :: "grid \<Rightarrow> Position \<Rightarrow> Position set" where
  "connectedGroup gr p = {q. (p, q) \<in> (sameColorAdj gr (cell gr (X p) (Y p)))\<^sup>*}"

text \<open>
  Compaction in the words of the design: a column, read from the top row down, keeps its
  non-empty cells in their order at the floor and is Empty above them. A column is
  settled when no non-empty cell lies directly above an empty one.
\<close>

definition column :: "grid \<Rightarrow> int \<Rightarrow> Color list" where
  "column gr x = map (\<lambda>row. row ! nat x) gr"

definition compact :: "Color list \<Rightarrow> Color list" where
  "compact col = replicate (length col - length (filter (\<lambda>c. c \<noteq> Empty) col)) Empty
                   @ filter (\<lambda>c. c \<noteq> Empty) col"

fun settledCol :: "Color list \<Rightarrow> bool" where
  "settledCol (a # b # cs) = ((a = Empty \<or> b \<noteq> Empty) \<and> settledCol (b # cs))"
| "settledCol cs = True"

definition settledGrid :: "grid \<Rightarrow> bool" where
  "settledGrid gr = list_all (\<lambda>x. settledCol (column gr x)) [0..FieldWidth - 1]"

text \<open>
  The games the program can be in: the ones \<^verbatim>\<open>NewGameWithColors\<close> builds, and whatever the
  core operations and the frame ticker's \<^verbatim>\<open>GroundFrames++\<close> make of them. \<open>coreInv\<close>
  collects what holds of all of them. \<open>reachableIn n\<close> counts the operations: it is the same
  relation, with the number of operations applied since \<^verbatim>\<open>NewGameWithColors\<close>, and
  \<open>stepInv n\<close> is what holds after at most \<open>n\<close> of them while the counters fit in an int64.
\<close>

definition coreInv :: "Game \<Rightarrow> bool" where
  "coreInv g = (wf_grid (Grid (Field g)) \<and> 0 \<le> ChainCount g \<and> MaxGroundFrames g = 32)"

inductive reachable :: "Game \<Rightarrow> bool" where
  start: "reachable (NewGameWithColors colorCount r)"
| move: "reachable g \<Longrightarrow> reachable (snd (Move dx dy rot g))"
| drop: "reachable g \<Longrightarrow> reachable (snd (Drop g))"
| hard: "reachable g \<Longrightarrow> reachable (HardDrop g)"
| lock: "reachable g \<Longrightarrow> reachable (LockPair g)"
| chain: "reachable g \<Longrightarrow> reachable (snd (ProcessChainStep g))"
| pause: "reachable g \<Longrightarrow> reachable (TogglePause g)"
| frame: "reachable g \<Longrightarrow> reachable (g\<lparr>GroundFrames := GroundFrames g + 1\<rparr>)"

inductive reachableIn :: "nat \<Rightarrow> Game \<Rightarrow> bool" where
  start: "reachableIn 0 (NewGameWithColors colorCount r)"
| move: "reachableIn n g \<Longrightarrow> reachableIn (Suc n) (snd (Move dx dy rot g))"
| drop: "reachableIn n g \<Longrightarrow> reachableIn (Suc n) (snd (Drop g))"
| hard: "reachableIn n g \<Longrightarrow> reachableIn (Suc n) (HardDrop g)"
| lock: "reachableIn n g \<Longrightarrow> reachableIn (Suc n) (LockPair g)"
| chain: "reachableIn n g \<Longrightarrow> reachableIn (Suc n) (snd (ProcessChainStep g))"
| pause: "reachableIn n g \<Longrightarrow> reachableIn (Suc n) (TogglePause g)"
| frame: "reachableIn n g \<Longrightarrow> reachableIn (Suc n) (g\<lparr>GroundFrames := GroundFrames g + 1\<rparr>)"

definition stepInv :: "nat \<Rightarrow> Game \<Rightarrow> bool" where
  "stepInv n g = (0 \<le> ChainCount g \<and> ChainCount g \<le> int n
                  \<and> LinesCleared g \<le> int n * int n \<and> levelInStep g)"

text \<open>
  Auxiliary notions of the proofs: what one call of the flood fill adds to the visited
  set, the invariant of the loops of \<^verbatim>\<open>clearPuyos\<close> after the positions \<open>D\<close>, and the step
  of the gravity loop on one column taken alone.
\<close>

definition explores :: "grid \<Rightarrow> Color \<Rightarrow> Position \<Rightarrow> Position set \<Rightarrow> Position set \<Rightarrow> bool" where
  "explores gr c n V R =
     (V \<subseteq> R \<and> (colored gr c n \<longrightarrow> n \<in> R)
      \<and> (\<forall>q\<in>R - V. colored gr c n \<and> (n, q) \<in> (sameColorAdj gr c)\<^sup>*)
      \<and> (\<forall>q\<in>R - V. \<forall>r. (q, r) \<in> sameColorAdj gr c \<longrightarrow> r \<in> R))"

definition clearInv :: "grid \<Rightarrow> Position set \<Rightarrow> grid \<times> Position set \<times> bool \<Rightarrow> bool" where
  "clearInv g0 D st =
     (case st of (gr, V, cl) \<Rightarrow>
        wf_grid gr
        \<and> (\<forall>p. inBoard p \<longrightarrow>
              cell gr (X p) (Y p) = (if p \<in> V \<and> 4 \<le> card (connectedGroup g0 p) then Empty
                                     else cell g0 (X p) (Y p)))
        \<and> (\<forall>p\<in>V. inBoard p \<and> cell g0 (X p) (Y p) \<noteq> Empty \<and> connectedGroup g0 p \<subseteq> V)
        \<and> (\<forall>p\<in>D. cell g0 (X p) (Y p) \<noteq> Empty \<longrightarrow> p \<in> V)
        \<and> (cl \<longleftrightarrow> (\<exists>p\<in>V. 4 \<le> card (connectedGroup g0 p))))"

definition colStep :: "int \<Rightarrow> Color list \<times> int \<Rightarrow> Color list \<times> int" where
  "colStep y st =
     (case st of (col, writeY) \<Rightarrow>
        if col ! nat y \<noteq> Empty then
          ((if writeY \<noteq> y then (col[nat writeY := col ! nat y])[nat y := Empty] else col), writeY - 1)
        else (col, writeY))"

section \<open>Sample states\<close>

definition demoPair :: PuyoPair where
  "demoPair = \<lparr>Main = \<lparr>Color = Red\<rparr>, Sub = \<lparr>Color = Green\<rparr>, Pos = \<lparr>X = 3, Y = 0\<rparr>, Rotate = 0\<rparr>"

text \<open>A freshly spawned pair over an empty board, five frames into the lock delay.\<close>

definition demoGame :: Game where
  "demoGame = \<lparr>Field = NewField, Current = Some demoPair, Next = demoPair, Score = 0, Level = 1,
       GameOver = False, Paused = False, rand = (\<lambda>i. 0), ChainCount = 0,
       TotalChains = 0, LinesCleared = 0, DropSpeed = Milliseconds 500,
       HighScore = None, State = StateNormal, CurrentChainNum = 0,
       GroundFrames = 5, MaxGroundFrames = 32, ColorCount = 4\<rparr>"

definition fullField :: Field where
  "fullField = \<lparr>Grid = replicate 12 (replicate 6 Red)\<rparr>"

text \<open>The spawn column filled, as in \<^verbatim>\<open>TestGameOver\<close>; the spawn then ends the game.\<close>

definition blockedField :: Field where
  "blockedField = \<lparr>Grid = replicate 12 [Empty, Empty, Empty, Red, Empty, Empty]\<rparr>"

definition overGame :: Game where
  "overGame = SpawnNewPair (demoGame\<lparr>Field := blockedField\<rparr>)"

text \<open>The pair upright in the bottom left corner, beside a two-high stack in column 1.\<close>

definition wellField :: Field where
  "wellField = \<lparr>Grid = replicate 10 (replicate 6 Empty) @ replicate 2 [Empty, Red, Empty, Empty, Empty, Empty]\<rparr>"

definition wellGame :: Game where
  "wellGame = demoGame\<lparr>Field := wellField, Current := Some (demoPair\<lparr>Pos := \<lparr>X = 0, Y = 11\<rparr>\<rparr>)\<rparr>"

text \<open>The pair upright against the left wall, as in \<^verbatim>\<open>TestWallKick\<close>.\<close>

definition edgeGame :: Game where
  "edgeGame = demoGame\<lparr>Current := Some (demoPair\<lparr>Pos := \<lparr>X = 0, Y = 5\<rparr>\<rparr>)\<rparr>"

text \<open>
  A short game in which every pair is red: two pairs dropped straight down the spawn column
  stack four red cells. \<open>lockedTwice\<close> is the game as the second pair locks,
  \<open>clearingGame\<close> after the Dropping step that finds the group, \<open>settledGame\<close> after the
  Clearing step that removes it.
\<close>

definition lockedOnce :: Game where
  "lockedOnce = snd (ProcessChainStep (LockPair (HardDrop (NewGame (\<lambda>i. 0)))))"

definition lockedTwice :: Game where
  "lockedTwice = LockPair (HardDrop lockedOnce)"

definition clearingGame :: Game where
  "clearingGame = snd (ProcessChainStep lockedTwice)"

definition settledGame :: Game where
  "settledGame = snd (ProcessChainStep clearingGame)"

text \<open>The board of \<^verbatim>\<open>TestApplyGravity\<close>: three cells of column 2 hanging in the air.\<close>

definition floatingGame :: Game where
  "floatingGame = demoGame\<lparr>Field := \<lparr>Grid =
     replicate 5 (replicate 6 Empty)
     @ [[Empty, Empty, Red, Empty, Empty, Empty]]
     @ replicate 2 (replicate 6 Empty)
     @ [[Empty, Empty, Blue, Empty, Empty, Empty]]
     @ [replicate 6 Empty]
     @ [[Empty, Empty, Green, Empty, Empty, Empty]]
     @ [replicate 6 Empty]\<rparr>\<rparr>"

text \<open>A settled column beside a floating cell: two yellow cells on the floor of column 0, a red cell in the air in column 2.\<close>

definition mixedGame :: Game where
  "mixedGame = demoGame\<lparr>Field := \<lparr>Grid =
     replicate 5 (replicate 6 Empty)
     @ [[Empty, Empty, Red, Empty, Empty, Empty]]
     @ replicate 4 (replicate 6 Empty)
     @ replicate 2 [Yellow, Empty, Empty, Empty, Empty, Empty]\<rparr>\<rparr>"

text \<open>The board of \<^verbatim>\<open>TestClearPuyosNotEnough\<close>: three red cells on the floor.\<close>

definition tripleGame :: Game where
  "tripleGame = demoGame\<lparr>Field := \<lparr>Grid =
     replicate 11 (replicate 6 Empty) @ [[Red, Red, Red, Empty, Empty, Empty]]\<rparr>\<rparr>"

text \<open>The pair lying on the floor, sub puyo to the right, as in \<^verbatim>\<open>TestFloorKick\<close>.\<close>

definition floorGame :: Game where
  "floorGame = demoGame\<lparr>Current := Some (demoPair\<lparr>Pos := \<lparr>X = 3, Y = 11\<rparr>, Rotate := 1\<rparr>)\<rparr>"

section \<open>Board queries\<close>

text \<open>
  C3, as the code has it. The column check of \<^verbatim>\<open>IsValidPosition\<close> comes first: above the
  board (y < 0) a position is valid exactly when its column is one of the board's, whatever
  the grid holds. The claim as stated, for every integer x, fails left and right of the board.
\<close>

theorem IsValidPosition_above_board:
  "y < 0 \<Longrightarrow> IsValidPosition f x y = (0 \<le> x \<and> x < FieldWidth)"
  by (auto simp: IsValidPosition_def FieldHeight_def)

theorem IsValidPosition_above_board_witness:
  "(- 1 :: int) < 0 \<and> IsValidPosition fullField 0 (- 1) \<and> \<not> IsValidPosition NewField 6 (- 1)"
  using IsValidPosition_above_board [of "- 1" fullField 0]
    IsValidPosition_above_board [of "- 1" NewField 6]
  by (simp add: FieldWidth_def)

theorem IsValidPosition_left_of_board_counterexample:
  "\<not> (\<forall>f x y. y < 0 \<longrightarrow> IsValidPosition f x y)"
proof
  assume "\<forall>f x y. y < 0 \<longrightarrow> IsValidPosition f x y"
  then have "IsValidPosition NewField (- 1) (- 1)" by simp
  then show False by (simp add: IsValidPosition_def)
qed

section \<open>Movement and rotation\<close>

lemma Move_fst:
  "fst (Move dx dy rot g) =
     (CanMove dx dy rot g \<or>
      rot \<noteq> 0 \<and> (CanMove (i64 (dx - 1)) dy rot g \<or> CanMove (i64 (dx + 1)) dy rot g
                 \<or> CanMove dx (i64 (dy - 1)) rot g))"
  by (simp add: Move_def Let_def)

lemma Move_rejected_same: "\<not> fst (Move dx dy rot g) \<Longrightarrow> snd (Move dx dy rot g) = g"
  unfolding Move_fst by (auto simp: Move_def)

lemma GroundFrames_shiftCurrent: "GroundFrames (shiftCurrent dx dy rot g) = GroundFrames g"
  by (simp add: shiftCurrent_def)

lemma Move_GroundFrames:
  "GroundFrames (snd (Move dx dy rot g)) =
     (if CanMove dx dy rot g then (if dx \<noteq> 0 \<or> rot \<noteq> 0 then 0 else GroundFrames g)
      else if rot \<noteq> 0 \<and> (CanMove (i64 (dx - 1)) dy rot g \<or> CanMove (i64 (dx + 1)) dy rot g
                         \<or> CanMove dx (i64 (dy - 1)) rot g)
      then 0 else GroundFrames g)"
  by (simp add: Move_def Let_def GroundFrames_shiftCurrent)

lemma Drop_eq:
  "Drop g = (if fst (Move 0 1 0 g) then (True, (snd (Move 0 1 0 g))\<lparr>GroundFrames := 0\<rparr>) else (False, g))"
proof (cases "fst (Move 0 1 0 g)")
  case True
  then show ?thesis by (cases "Move 0 1 0 g") (simp add: Drop_def)
next
  case False
  with Move_rejected_same [OF False] show ?thesis
    by (cases "Move 0 1 0 g") (simp add: Drop_def)
qed

text \<open>
  C4. A move or rotation request that returns false, all kick attempts included, leaves
  the whole game value as it was: the pair's position and rotation, the lock-delay
  counter and every cell of the board.
\<close>

theorem Move_rejected_unchanged:
  "\<not> fst (Move dx dy rot g) \<Longrightarrow> snd (Move dx dy rot g) = g"
  by (rule Move_rejected_same)

theorem Move_rejected_unchanged_witness:
  "\<not> fst (Move 0 0 1 wellGame) \<and> snd (Move 0 0 1 wellGame) = wellGame
   \<and> \<not> fst (Move (- 4) 0 0 demoGame) \<and> snd (Move (- 4) 0 0 demoGame) = demoGame"
proof -
  have a: "\<not> fst (Move 0 0 1 wellGame)" by code_simp
  have b: "\<not> fst (Move (- 4) 0 0 demoGame)" by code_simp
  show ?thesis
    using a b Move_rejected_unchanged [OF a] Move_rejected_unchanged [OF b] by simp
qed

text \<open>
  C2, as the code has it. An accepted \<^verbatim>\<open>Move\<close> resets the lock-delay counter to 0 exactly
  when dx or the rotation is not zero, and an accepted purely downward \<^verbatim>\<open>Move\<close> leaves it
  as it was. \<^verbatim>\<open>Drop\<close> is different: it is the downward move \<^verbatim>\<open>Move(0, 1, 0)\<close> followed,
  whenever that move is accepted, by a reset of the counter to 0; when the move is
  rejected, \<^verbatim>\<open>Drop\<close> returns false and changes nothing.
\<close>

theorem Move_resets_GroundFrames:
  "(fst (Move dx dy rot g) \<longrightarrow>
      GroundFrames (snd (Move dx dy rot g)) = (if dx \<noteq> 0 \<or> rot \<noteq> 0 then 0 else GroundFrames g))
   \<and> Drop g = (if fst (Move 0 1 0 g) then (True, (snd (Move 0 1 0 g))\<lparr>GroundFrames := 0\<rparr>)
              else (False, g))
   \<and> (fst (Move 0 1 0 g) \<longrightarrow> fst (Drop g) \<and> GroundFrames (snd (Drop g)) = 0)
   \<and> (fst (Drop g) \<longrightarrow> fst (Move 0 1 0 g) \<and> GroundFrames (snd (Drop g)) = 0)
   \<and> (\<not> fst (Drop g) \<longrightarrow> snd (Drop g) = g)"
proof (intro conjI impI)
  assume "fst (Move dx dy rot g)"
  then have "CanMove dx dy rot g \<or>
      rot \<noteq> 0 \<and> (CanMove (i64 (dx - 1)) dy rot g \<or> CanMove (i64 (dx + 1)) dy rot g
                 \<or> CanMove dx (i64 (dy - 1)) rot g)"
    by (simp only: Move_fst)
  then show "GroundFrames (snd (Move dx dy rot g)) = (if dx \<noteq> 0 \<or> rot \<noteq> 0 then 0 else GroundFrames g)"
    unfolding Move_GroundFrames by auto
next
  show "Drop g = (if fst (Move 0 1 0 g) then (True, (snd (Move 0 1 0 g))\<lparr>GroundFrames := 0\<rparr>)
              else (False, g))"
    by (rule Drop_eq)
next
  assume "fst (Move 0 1 0 g)"
  then show "fst (Drop g)" by (simp add: Drop_eq)
next
  assume "fst (Move 0 1 0 g)"
  then show "GroundFrames (snd (Drop g)) = 0" by (simp add: Drop_eq)
next
  assume "fst (Drop g)"
  then show "fst (Move 0 1 0 g)" by (simp add: Drop_eq split: if_splits)
next
  assume "fst (Drop g)"
  then show "GroundFrames (snd (Drop g)) = 0" by (simp add: Drop_eq split: if_splits)
next
  assume "\<not> fst (Drop g)"
  then show "snd (Drop g) = g" by (simp add: Drop_eq split: if_splits)
qed

theorem Move_resets_GroundFrames_witness:
  "fst (Move 0 1 0 demoGame) \<and> GroundFrames (snd (Move 0 1 0 demoGame)) = 5
   \<and> fst (Move (- 1) 0 0 demoGame) \<and> GroundFrames (snd (Move (- 1) 0 0 demoGame)) = 0
   \<and> Drop demoGame = (True, (snd (Move 0 1 0 demoGame))\<lparr>GroundFrames := 0\<rparr>)
   \<and> fst (Drop demoGame) \<and> GroundFrames (snd (Drop demoGame)) = 0
   \<and> \<not> fst (Move 0 1 0 wellGame) \<and> Drop wellGame = (False, wellGame)"
proof -
  have a: "fst (Move 0 1 0 demoGame)" by code_simp
  have b: "fst (Move (- 1) 0 0 demoGame)" by code_simp
  have d: "\<not> fst (Move 0 1 0 wellGame)" by code_simp
  have e: "GroundFrames demoGame = 5" by (simp add: demoGame_def)
  note down = Move_resets_GroundFrames [of 0 1 0 demoGame]
  note left = Move_resets_GroundFrames [of "- 1" 0 0 demoGame]
  note well = Move_resets_GroundFrames [of 0 0 0 wellGame]
  from down a have "GroundFrames (snd (Move 0 1 0 demoGame))
      = (if (0::int) \<noteq> 0 \<or> (0::int) \<noteq> 0 then 0 else GroundFrames demoGame)" by blast
  with e have c1: "GroundFrames (snd (Move 0 1 0 demoGame)) = 5" by simp
  from left b have "GroundFrames (snd (Move (- 1) 0 0 demoGame))
      = (if (- 1::int) \<noteq> 0 \<or> (0::int) \<noteq> 0 then 0 else GroundFrames demoGame)" by blast
  then have c2: "GroundFrames (snd (Move (- 1) 0 0 demoGame)) = 0" by simp
  from down have "Drop demoGame = (if fst (Move 0 1 0 demoGame)
      then (True, (snd (Move 0 1 0 demoGame))\<lparr>GroundFrames := 0\<rparr>) else (False, demoGame))" by blast
  with a have c3: "Drop demoGame = (True, (snd (Move 0 1 0 demoGame))\<lparr>GroundFrames := 0\<rparr>)"
    by (simp only: if_True)
  from down a have c4: "fst (Drop demoGame)" and c5: "GroundFrames (snd (Drop demoGame)) = 0"
    by blast+
  from well have "Drop wellGame = (if fst (Move 0 1 0 wellGame)
      then (True, (snd (Move 0 1 0 wellGame))\<lparr>GroundFrames := 0\<rparr>) else (False, wellGame))" by blast
  with d have c6: "Drop wellGame = (False, wellGame)" by (simp only: if_False)
  from a c1 b c2 c3 c4 c5 d c6 show ?thesis by blast
qed

theorem Drop_resets_GroundFrames_counterexample:
  "fst (Move 0 1 0 demoGame) \<and> fst (Drop demoGame) \<and> GroundFrames demoGame = 5
   \<and> GroundFrames (snd (Drop demoGame)) = 0"
  by code_simp

lemma i64_small: "\<bar>a\<bar> < 2 ^ 63 \<Longrightarrow> i64 a = a"
  by (rule i64_id) (simp add: inInt64_def abs_less_iff)

lemma go_rem_nonneg: "0 \<le> a \<Longrightarrow> go_rem a 4 = a mod 4"
  by (cases "a = 0") (simp_all add: go_rem_def)

lemma IsValidPosition_boardQuery: "IsValidPosition f x y = boardQuery_spec (Grid f) x y"
  by (auto simp: IsValidPosition_def boardQuery_spec_def)

lemma newRotate_plain:
  assumes "0 \<le> r" "r \<le> 3" "- 4 \<le> drot" "drot < 2 ^ 61"
  shows "go_rem (i64 (i64 (r + drot) + 4)) 4 = (r + drot) mod 4"
proof -
  have a: "i64 (r + drot) = r + drot" using assms by (intro i64_small) (simp add: abs_less_iff)
  have b: "i64 (r + drot + 4) = r + drot + 4" using assms by (intro i64_small) (simp add: abs_less_iff)
  have "go_rem (r + drot + 4) 4 = (r + drot + 4) mod 4" using assms by (intro go_rem_nonneg) simp
  then show ?thesis by (simp add: a b)
qed

lemma GetSubPosition_offset:
  assumes "0 \<le> r" "r \<le> 3" "\<bar>x\<bar> < 2 ^ 62" "\<bar>y\<bar> < 2 ^ 62"
  shows "GetSubPosition \<lparr>Main = m, Sub = s, Pos = \<lparr>X = x, Y = y\<rparr>, Rotate = r\<rparr>
           = \<lparr>X = x + fst (subOffset_spec r), Y = y + snd (subOffset_spec r)\<rparr>"
proof -
  have w: "i64 (x + 1) = x + 1" "i64 (x - 1) = x - 1" "i64 (y + 1) = y + 1" "i64 (y - 1) = y - 1"
    using assms(3,4) by (simp_all add: i64_small abs_less_iff)
  from assms(1,2) consider "r = 0" | "r = 1" | "r = 2" | "r = 3" by arith
  then show ?thesis
    by cases (simp_all add: GetSubPosition_def subOffset_spec_def w)
qed

lemma CanMove_validates:
  assumes cur: "Current g = Some cur"
    and r: "0 \<le> Rotate cur" "Rotate cur \<le> 3" "- 4 \<le> drot" "drot < 2 ^ 61"
    and p: "\<bar>X (Pos cur)\<bar> < 2 ^ 61" "\<bar>Y (Pos cur)\<bar> < 2 ^ 61"
    and d: "\<bar>ddx\<bar> \<le> 2 ^ 61" "\<bar>ddy\<bar> \<le> 2 ^ 61"
  shows "CanMove ddx ddy drot g
           = validates_spec (Grid (Field g))
               (X (Pos cur) + ddx, Y (Pos cur) + ddy, (Rotate cur + drot) mod 4)"
proof -
  let ?x = "X (Pos cur) + ddx" and ?y = "Y (Pos cur) + ddy" and ?r = "(Rotate cur + drot) mod 4"
  have x: "i64 ?x = ?x" "\<bar>?x\<bar> < 2 ^ 62" using p(1) d(1) by (simp_all add: i64_small abs_less_iff abs_le_iff)
  have y: "i64 ?y = ?y" "\<bar>?y\<bar> < 2 ^ 62" using p(2) d(2) by (simp_all add: i64_small abs_less_iff abs_le_iff)
  have nr: "go_rem (i64 (i64 (Rotate cur + drot) + 4)) 4 = ?r" using r by (rule newRotate_plain)
  have rr: "0 \<le> ?r" "?r \<le> 3" by simp_all
  note sp = GetSubPosition_offset [OF rr x(2) y(2)]
  show ?thesis
    unfolding CanMove_def cur option.case Let_def x(1) y(1) nr sp
    by (simp add: validates_spec_def IsValidPosition_boardQuery)
qed

lemma shiftCurrent_plain:
  assumes cur: "Current g = Some cur"
    and r: "0 \<le> Rotate cur" "Rotate cur \<le> 3" "- 4 \<le> drot" "drot < 2 ^ 61"
    and p: "\<bar>X (Pos cur)\<bar> < 2 ^ 61" "\<bar>Y (Pos cur)\<bar> < 2 ^ 61"
    and d: "\<bar>ddx\<bar> \<le> 2 ^ 61" "\<bar>ddy\<bar> \<le> 2 ^ 61"
  shows "shiftCurrent ddx ddy drot g
           = g\<lparr>Current := Some (cur\<lparr>Pos := \<lparr>X = X (Pos cur) + ddx, Y = Y (Pos cur) + ddy\<rparr>,
                                      Rotate := (Rotate cur + drot) mod 4\<rparr>)\<rparr>"
proof -
  let ?x = "X (Pos cur) + ddx" and ?y = "Y (Pos cur) + ddy"
  have x: "i64 ?x = ?x" using p(1) d(1) by (simp add: i64_small abs_less_iff abs_le_iff)
  have y: "i64 ?y = ?y" using p(2) d(2) by (simp add: i64_small abs_less_iff abs_le_iff)
  have nr: "go_rem (i64 (i64 (Rotate cur + drot) + 4)) 4 = (Rotate cur + drot) mod 4"
    using r by (rule newRotate_plain)
  show ?thesis by (simp add: shiftCurrent_def shiftPair_def cur x y nr)
qed

text \<open>
  C5. On every request whose numbers are far from the ends of the 64-bit range,
  \<^verbatim>\<open>Move\<close> is the kick recovery of the design: no kick is tried when the base candidate
  validates or the rotation is zero; otherwise the shifts (-1,0), (+1,0), (0,-1) are tried
  in this order on top of (dx, dy), the first candidate whose main and sub cells both
  pass the board query becomes the pair's position and rotation, and when none does the
  move returns false with the game unchanged.
\<close>

theorem Move_kick_order:
  assumes "plainRequest g dx dy drot"
  shows "Move dx dy drot g = Move_spec dx dy drot g"
proof (cases "Current g")
  case None
  then have "\<not> CanMove a b c g" for a b c by (simp add: CanMove_def)
  with None show ?thesis by (simp add: Move_def Move_spec_def)
next
  case (Some cur)
  from assms Some have r: "0 \<le> Rotate cur" "Rotate cur \<le> 3" "- 4 \<le> drot" "drot < 2 ^ 61"
    and p: "\<bar>X (Pos cur)\<bar> < 2 ^ 61" "\<bar>Y (Pos cur)\<bar> < 2 ^ 61"
    and d: "\<bar>dx\<bar> < 2 ^ 61" "\<bar>dy\<bar> < 2 ^ 61"
    by (simp_all add: plainRequest_def)
  have k: "i64 (dx - 1) = dx - 1" "i64 (dx + 1) = dx + 1" "i64 (dy - 1) = dy - 1"
    using d by (simp_all add: i64_small abs_less_iff)
  have b: "\<bar>dx\<bar> \<le> 2 ^ 61" "\<bar>dy\<bar> \<le> 2 ^ 61" "\<bar>dx - 1\<bar> \<le> 2 ^ 61" "\<bar>dx + 1\<bar> \<le> 2 ^ 61"
    "\<bar>dy - 1\<bar> \<le> 2 ^ 61"
    using d by (simp_all add: abs_less_iff abs_le_iff)
  note cm = CanMove_validates [OF Some r p]
  note sc = shiftCurrent_plain [OF Some r p]
  have c0: "CanMove dx dy drot g = validates_spec (Grid (Field g))
       (X (Pos cur) + dx + 0, Y (Pos cur) + dy + 0, (Rotate cur + drot) mod 4)"
    using cm [OF b(1,2)] by simp
  have c1: "CanMove (dx - 1) dy drot g = validates_spec (Grid (Field g))
       (X (Pos cur) + dx + - 1, Y (Pos cur) + dy + 0, (Rotate cur + drot) mod 4)"
    using cm [OF b(3,2)] by (simp add: algebra_simps)
  have c2: "CanMove (dx + 1) dy drot g = validates_spec (Grid (Field g))
       (X (Pos cur) + dx + 1, Y (Pos cur) + dy + 0, (Rotate cur + drot) mod 4)"
    using cm [OF b(4,2)] by (simp add: algebra_simps)
  have c3: "CanMove dx (dy - 1) drot g = validates_spec (Grid (Field g))
       (X (Pos cur) + dx + 0, Y (Pos cur) + dy + - 1, (Rotate cur + drot) mod 4)"
    using cm [OF b(1,5)] by (simp add: algebra_simps)
  have s0: "shiftCurrent dx dy drot g = g\<lparr>Current := Some (cur\<lparr>Pos := \<lparr>X = X (Pos cur) + dx + 0,
       Y = Y (Pos cur) + dy + 0\<rparr>, Rotate := (Rotate cur + drot) mod 4\<rparr>)\<rparr>"
    using sc [OF b(1,2)] by simp
  have s1: "shiftCurrent (dx - 1) dy drot g = g\<lparr>Current := Some (cur\<lparr>Pos := \<lparr>X = X (Pos cur) + dx + - 1,
       Y = Y (Pos cur) + dy + 0\<rparr>, Rotate := (Rotate cur + drot) mod 4\<rparr>)\<rparr>"
    using sc [OF b(3,2)] by (simp add: algebra_simps)
  have s2: "shiftCurrent (dx + 1) dy drot g = g\<lparr>Current := Some (cur\<lparr>Pos := \<lparr>X = X (Pos cur) + dx + 1,
       Y = Y (Pos cur) + dy + 0\<rparr>, Rotate := (Rotate cur + drot) mod 4\<rparr>)\<rparr>"
    using sc [OF b(4,2)] by (simp add: algebra_simps)
  have s3: "shiftCurrent dx (dy - 1) drot g = g\<lparr>Current := Some (cur\<lparr>Pos := \<lparr>X = X (Pos cur) + dx + 0,
       Y = Y (Pos cur) + dy + - 1\<rparr>, Rotate := (Rotate cur + drot) mod 4\<rparr>)\<rparr>"
    using sc [OF b(1,5)] by (simp add: algebra_simps)
  have same: "h\<lparr>GroundFrames := GroundFrames g\<rparr> = h" if "GroundFrames h = GroundFrames g" for h :: Game
    using that by (cases h) simp
  show ?thesis
    unfolding Move_def Move_spec_def Some option.case Let_def k c0 c1 c2 c3 s0 s1 s2 s3
    by (simp add: kickShifts_def same del: add_0_right)
qed

theorem Move_kick_order_witness:
  "plainRequest edgeGame 0 0 (- 1)
   \<and> Move 0 0 (- 1) edgeGame
       = (True, edgeGame\<lparr>Current := Some (demoPair\<lparr>Pos := \<lparr>X = 1, Y = 5\<rparr>, Rotate := 3\<rparr>),
                         GroundFrames := 0\<rparr>)
   \<and> plainRequest floorGame 0 0 1
   \<and> Move 0 0 1 floorGame
       = (True, floorGame\<lparr>Current := Some (demoPair\<lparr>Pos := \<lparr>X = 3, Y = 10\<rparr>, Rotate := 2\<rparr>),
                          GroundFrames := 0\<rparr>)
   \<and> plainRequest wellGame 0 0 1 \<and> Move 0 0 1 wellGame = (False, wellGame)"
proof -
  have a: "plainRequest edgeGame 0 0 (- 1)"
    by (simp add: plainRequest_def edgeGame_def demoGame_def demoPair_def)
  have b: "plainRequest floorGame 0 0 1"
    by (simp add: plainRequest_def floorGame_def demoGame_def demoPair_def)
  have c: "plainRequest wellGame 0 0 1"
    by (simp add: plainRequest_def wellGame_def demoGame_def demoPair_def)
  have a': "Move_spec 0 0 (- 1) edgeGame
       = (True, edgeGame\<lparr>Current := Some (demoPair\<lparr>Pos := \<lparr>X = 1, Y = 5\<rparr>, Rotate := 3\<rparr>),
                         GroundFrames := 0\<rparr>)"
    by (simp add: Move_spec_def edgeGame_def demoGame_def demoPair_def validates_spec_def
        boardQuery_spec_def subOffset_spec_def kickShifts_def NewField_def cell_def
        FieldWidth_def FieldHeight_def)
  have b': "Move_spec 0 0 1 floorGame
       = (True, floorGame\<lparr>Current := Some (demoPair\<lparr>Pos := \<lparr>X = 3, Y = 10\<rparr>, Rotate := 2\<rparr>),
                          GroundFrames := 0\<rparr>)"
    by (simp add: Move_spec_def floorGame_def demoGame_def demoPair_def validates_spec_def
        boardQuery_spec_def subOffset_spec_def kickShifts_def NewField_def cell_def
        FieldWidth_def FieldHeight_def)
  have c': "Move_spec 0 0 1 wellGame = (False, wellGame)"
    by (simp add: Move_spec_def wellGame_def wellField_def demoGame_def demoPair_def
        validates_spec_def boardQuery_spec_def subOffset_spec_def kickShifts_def cell_def
        FieldWidth_def FieldHeight_def nth_append)
  show ?thesis
    using a b c a' b' c' Move_kick_order [OF a] Move_kick_order [OF b] Move_kick_order [OF c]
    by simp
qed

section \<open>Game over\<close>

text \<open>
  C1, as the code has it. The core operations do not read \<^verbatim>\<open>GameOver\<close>; the check is in
  the scheduler. Once the flag is set, none of the scheduler's ticks (drop, frame, chain)
  and none of its key commands (move, rotate, soft drop, pause) changes the game at all.
  \<^verbatim>\<open>Move\<close> itself, called on a game that is over, still moves the pair.
\<close>

theorem GameOver_scheduler_inert:
  "GameOver g \<Longrightarrow> onDropTick g = g \<and> onFrameTick g = g \<and> onChainTick g = g \<and> onKey k g = g"
  by (simp add: onDropTick_def onFrameTick_def onChainTick_def onKey_def TogglePause_def)

theorem GameOver_scheduler_inert_witness:
  "GameOver overGame \<and> onDropTick overGame = overGame \<and> onFrameTick overGame = overGame
   \<and> onChainTick overGame = overGame \<and> onKey KeyLeft overGame = overGame"
proof -
  have a: "GameOver overGame" by code_simp
  show ?thesis using a GameOver_scheduler_inert [OF a, of KeyLeft] by simp
qed

theorem GameOver_Move_counterexample:
  "GameOver overGame \<and> fst (Move (- 1) 0 0 overGame)
   \<and> map_option (\<lambda>p. X (Pos p)) (Current overGame) = Some 3
   \<and> map_option (\<lambda>p. X (Pos p)) (Current (snd (Move (- 1) 0 0 overGame))) = Some 2"
  by code_simp

section \<open>Hard drop\<close>

lemma hardDropLoop_unfold:
  "hardDropLoop g = (if fst (Move 0 1 0 g) then hardDropLoop (downStep g) else g)"
proof (cases "fst (Move 0 1 0 g)")
  case True
  then show ?thesis by (subst hardDropLoop.simps) (simp add: downStep_def)
next
  case False
  with Move_rejected_same [OF False] show ?thesis by (subst hardDropLoop.simps) simp
qed

lemma hardDropLoop_iterates:
  "\<exists>n. (\<forall>k<n. fst (Move 0 1 0 ((downStep ^^ k) g))) \<and> \<not> fst (Move 0 1 0 ((downStep ^^ n) g))
       \<and> hardDropLoop g = (downStep ^^ n) g"
proof (induction g rule: hardDropLoop.induct)
  case (1 g)
  show ?case
  proof (cases "fst (Move 0 1 0 g)")
    case False
    then have "hardDropLoop g = g" by (subst hardDropLoop_unfold) simp
    with False have "(\<forall>k<0. fst (Move 0 1 0 ((downStep ^^ k) g))) \<and> \<not> fst (Move 0 1 0 ((downStep ^^ 0) g))
       \<and> hardDropLoop g = (downStep ^^ 0) g" by simp
    then show ?thesis by blast
  next
    case True
    from "1.IH" [OF True] obtain n where
      n: "\<forall>k<n. fst (Move 0 1 0 ((downStep ^^ k) (downStep g)))"
         "\<not> fst (Move 0 1 0 ((downStep ^^ n) (downStep g)))"
         "hardDropLoop (downStep g) = (downStep ^^ n) (downStep g)"
      unfolding downStep_def by blast
    have sh: "\<And>k. (downStep ^^ k) (downStep g) = (downStep ^^ Suc k) g"
      by (simp add: funpow_swap1)
    have a: "\<forall>k<Suc n. fst (Move 0 1 0 ((downStep ^^ k) g))"
    proof (intro allI impI)
      fix k assume "k < Suc n"
      show "fst (Move 0 1 0 ((downStep ^^ k) g))"
      proof (cases k)
        case 0
        with True show ?thesis by simp
      next
        case (Suc j)
        with \<open>k < Suc n\<close> have "j < n" by simp
        with n(1) have "fst (Move 0 1 0 ((downStep ^^ j) (downStep g)))" by blast
        then show ?thesis unfolding sh Suc .
      qed
    qed
    have b: "\<not> fst (Move 0 1 0 ((downStep ^^ Suc n) g))"
      using n(2) unfolding sh .
    have c: "hardDropLoop g = (downStep ^^ Suc n) g"
      using True n(3) unfolding sh by (subst hardDropLoop_unfold) simp
    from a b c show ?thesis by blast
  qed
qed

lemma Move_MaxGroundFrames: "MaxGroundFrames (snd (Move dx dy rot g)) = MaxGroundFrames g"
  by (simp add: Move_def Let_def shiftCurrent_def)

lemma hardDropLoop_MaxGroundFrames: "MaxGroundFrames (hardDropLoop g) = MaxGroundFrames g"
proof (induction g rule: hardDropLoop.induct)
  case (1 g)
  show ?case
  proof (cases "fst (Move 0 1 0 g)")
    case True
    with "1.IH" [OF True] show ?thesis
      by (subst hardDropLoop_unfold) (simp add: downStep_def Move_MaxGroundFrames)
  next
    case False
    then show ?thesis by (subst hardDropLoop_unfold) simp
  qed
qed

text \<open>
  C8. \<^verbatim>\<open>HardDrop\<close> applies the pure downward move until it is rejected: its result is the
  game after some number n of accepted downward moves, the next one rejected, with the
  lock-delay counter set to the threshold \<^verbatim>\<open>MaxGroundFrames\<close>, which is 32 in every
  game \<^verbatim>\<open>NewGameWithColors\<close> builds. So \<^verbatim>\<open>ShouldLock\<close> holds as soon as \<^verbatim>\<open>HardDrop\<close>
  returns, with no grace frame left.
\<close>

theorem HardDrop_locks_at_once:
  "(\<exists>n. (\<forall>k<n. fst (Move 0 1 0 ((downStep ^^ k) g))) \<and> \<not> fst (Move 0 1 0 ((downStep ^^ n) g))
        \<and> HardDrop g = ((downStep ^^ n) g)\<lparr>GroundFrames := MaxGroundFrames g\<rparr>)
   \<and> GroundFrames (HardDrop g) = MaxGroundFrames (HardDrop g)
   \<and> ShouldLock (HardDrop g)
   \<and> (MaxGroundFrames g = 32 \<longrightarrow> GroundFrames (HardDrop g) = 32)"
proof -
  obtain n where n: "\<forall>k<n. fst (Move 0 1 0 ((downStep ^^ k) g))"
      "\<not> fst (Move 0 1 0 ((downStep ^^ n) g))" "hardDropLoop g = (downStep ^^ n) g"
    using hardDropLoop_iterates by blast
  have hd: "HardDrop g = (hardDropLoop g)\<lparr>GroundFrames := MaxGroundFrames g\<rparr>"
    by (simp add: HardDrop_def Let_def hardDropLoop_MaxGroundFrames)
  have "HardDrop g = ((downStep ^^ n) g)\<lparr>GroundFrames := MaxGroundFrames g\<rparr>"
    using hd n(3) by simp
  with n(1,2) have first: "\<exists>n. (\<forall>k<n. fst (Move 0 1 0 ((downStep ^^ k) g)))
        \<and> \<not> fst (Move 0 1 0 ((downStep ^^ n) g))
        \<and> HardDrop g = ((downStep ^^ n) g)\<lparr>GroundFrames := MaxGroundFrames g\<rparr>" by blast
  have gf: "GroundFrames (HardDrop g) = MaxGroundFrames g" by (simp add: hd)
  have mg: "MaxGroundFrames (HardDrop g) = MaxGroundFrames g"
    by (simp add: hd hardDropLoop_MaxGroundFrames)
  from first gf mg show ?thesis by (simp add: ShouldLock_def)
qed

theorem HardDrop_locks_at_once_witness:
  "MaxGroundFrames demoGame = 32 \<and> GroundFrames (HardDrop demoGame) = 32 \<and> ShouldLock (HardDrop demoGame)
   \<and> map_option (\<lambda>p. Y (Pos p)) (Current (HardDrop demoGame)) = Some 11"
proof -
  have a: "MaxGroundFrames demoGame = 32" by (simp add: demoGame_def)
  have b: "map_option (\<lambda>p. Y (Pos p)) (Current (HardDrop demoGame)) = Some 11" by code_simp
  show ?thesis using a b HardDrop_locks_at_once [of demoGame] by simp
qed

section \<open>Scoring\<close>

lemma i64_add_left: "i64 (i64 a + b) = i64 (a + b)"
  by (rule i64_cong) (metis i64_mod mod_add_left_eq)

lemma i64_add_right: "i64 (a + i64 b) = i64 (a + b)"
  by (rule i64_cong) (metis i64_mod mod_add_right_eq)

lemma i64_mult_left: "i64 (i64 a * b) = i64 (a * b)"
  by (rule i64_cong) (metis i64_mod mod_mult_left_eq)

lemma i64_mult_right: "i64 (a * i64 b) = i64 (a * b)"
  by (rule i64_cong) (metis i64_mod mod_mult_right_eq)

lemma chainBonusLoop_power:
  "inInt64 b \<Longrightarrow> chainBonusLoop i n b = i64 (b * 2 ^ nat (n - i))"
proof (induction i n b rule: chainBonusLoop.induct)
  case (1 i n b)
  show ?case
  proof (cases "i < n")
    case True
    then have e: "nat (n - i) = Suc (nat (n - (i + 1)))" by simp
    have "chainBonusLoop i n b = chainBonusLoop (i + 1) n (i64 (b * 2))"
      using True by (subst chainBonusLoop.simps) simp
    also have "\<dots> = i64 (i64 (b * 2) * 2 ^ nat (n - (i + 1)))"
      by (rule "1.IH" [OF True i64_inInt64])
    also have "\<dots> = i64 (b * 2 * 2 ^ nat (n - (i + 1)))" by (rule i64_mult_left)
    finally show ?thesis by (simp add: e mult.assoc)
  next
    case False
    then have "chainBonusLoop i n b = b" by (subst chainBonusLoop.simps) simp
    with False "1.prems" show ?thesis by (simp add: i64_id)
  qed
qed

lemma go_div_nonneg: "0 \<le> a \<Longrightarrow> 0 < b \<Longrightarrow> go_div a b = a div b"
  by (cases "a = 0") (simp_all add: go_div_def)

lemma calculateScore_Score:
  assumes "0 < ChainCount g"
  shows "Score (calculateScore g) = i64 (Score g + 100 * ChainCount g * 2 ^ nat (ChainCount g - 1))"
proof -
  let ?d = "ChainCount g" and ?p = "2 ^ nat (ChainCount g - 1) :: int"
  have cb: "chainBonusLoop 1 ?d 1 = i64 ?p"
    using chainBonusLoop_power [of 1 1 ?d] by (simp add: inInt64_def)
  have "i64 (i64 (100 * i64 ?p) * ?d) = i64 (100 * i64 ?p * ?d)" by (rule i64_mult_left)
  also have "100 * i64 ?p * ?d = i64 ?p * (100 * ?d)" by (simp add: algebra_simps)
  also have "i64 (i64 ?p * (100 * ?d)) = i64 (?p * (100 * ?d))" by (rule i64_mult_left)
  finally have pr: "i64 (i64 (100 * i64 ?p) * ?d) = i64 (100 * ?d * ?p)" by (simp add: algebra_simps)
  have "Score (calculateScore g) = i64 (Score g + i64 (i64 (100 * i64 ?p) * ?d))"
    using assms by (simp add: calculateScore_def Let_def cb)
  also have "\<dots> = i64 (Score g + i64 (100 * ?d * ?p))" by (simp only: pr)
  also have "\<dots> = i64 (Score g + 100 * ?d * ?p)" by (rule i64_add_right)
  finally show ?thesis .
qed

lemma calculateScore_LinesCleared:
  "0 < ChainCount g \<Longrightarrow> LinesCleared (calculateScore g) = i64 (LinesCleared g + ChainCount g)"
  by (simp add: calculateScore_def Let_def)

lemma calculateScore_Level:
  "Level (calculateScore g) =
     (if 0 < ChainCount g
      then max (Level g) (i64 (go_div (i64 (LinesCleared g + ChainCount g)) 10 + 1))
      else Level g)"
  by (simp add: calculateScore_def Let_def max_def)

lemma calculateScore_idle: "\<not> 0 < ChainCount g \<Longrightarrow> calculateScore g = g"
  by (simp add: calculateScore_def)

lemma newLevel_plain:
  assumes "0 \<le> a" "inInt64 a"
  shows "i64 (go_div a 10 + 1) = a div 10 + 1"
proof -
  have "0 \<le> a div 10" using assms(1) by simp
  moreover have "a div 10 < 2 ^ 62"
  proof -
    from assms(2) have "a < 2 ^ 63" by (simp add: inInt64_def)
    then have "a div 10 \<le> (2 ^ 63 - 1) div 10" by (intro zdiv_mono1) simp_all
    then show ?thesis by simp
  qed
  ultimately have "inInt64 (a div 10 + 1)" by (simp add: inInt64_def)
  then show ?thesis using assms(1) by (simp add: go_div_nonneg i64_id)
qed

lemma calculateScore_levelInStep:
  assumes "levelInStep g" "0 \<le> ChainCount g" "inInt64 (LinesCleared g + ChainCount g)"
  shows "levelInStep (calculateScore g)"
proof (cases "0 < ChainCount g")
  case False
  with assms show ?thesis by (simp add: calculateScore_idle)
next
  case True
  let ?n = "LinesCleared g + ChainCount g"
  from assms True have nn: "0 \<le> ?n" by (simp add: levelInStep_def)
  have w: "i64 ?n = ?n" using assms(3) by (rule i64_id)
  have nl: "i64 (go_div ?n 10 + 1) = ?n div 10 + 1" using nn assms(3) by (rule newLevel_plain)
  have mono: "LinesCleared g div 10 \<le> ?n div 10"
    using True by (intro zdiv_mono1) simp_all
  from assms(1) have lv: "Level g = LinesCleared g div 10 + 1" by (simp add: levelInStep_def)
  show ?thesis
    unfolding levelInStep_def calculateScore_Level calculateScore_LinesCleared [OF True] w nl
    using True nn mono lv by (simp add: max_def)
qed

lemma SpawnNewPair_totals:
  "Score (SpawnNewPair g) = Score g" "LinesCleared (SpawnNewPair g) = LinesCleared g"
  "Level (SpawnNewPair g) = Level g" "TotalChains (SpawnNewPair g) = TotalChains g"
  "MaxGroundFrames (SpawnNewPair g) = MaxGroundFrames g"
  by (simp_all add: SpawnNewPair_def generatePuyoPair_def Let_def Intn_def split: prod.splits)

lemma applyGravity_totals:
  "Score (applyGravity g) = Score g" "LinesCleared (applyGravity g) = LinesCleared g"
  "Level (applyGravity g) = Level g" "TotalChains (applyGravity g) = TotalChains g"
  "ChainCount (applyGravity g) = ChainCount g" "State (applyGravity g) = State g"
  "MaxGroundFrames (applyGravity g) = MaxGroundFrames g"
  by (simp_all add: applyGravity_def)

lemma ProcessChainStep_settles:
  "State g = StateDropping \<Longrightarrow> \<not> hasClearablePuyos (applyGravity g) \<Longrightarrow>
     ProcessChainStep g = (False, SpawnNewPair ((calculateScore (applyGravity g))\<lparr>State := StateNormal\<rparr>))"
  by (simp add: ProcessChainStep_def Let_def)

text \<open>
  C7. When a chain sequence completes with chain depth d > 0 (\<^verbatim>\<open>calculateScore\<close> with
  \<^verbatim>\<open>ChainCount\<close> = d, as the Dropping step calls it when nothing is left to clear), the
  score becomes score + 100 * d * 2^(d-1) and the lines cleared become lines + d, both
  as int64 values: they are exactly these sums whenever the sums fit in an int64, and the
  sums reduced into the int64 range otherwise (from d = 52 the bonus alone does not fit).
  Depths 1, 2, 3, 4 give 100, 400, 1200, 3200. The level is raised to lines cleared / 10 + 1
  and never lowered; in a game whose level is in step with its lines cleared, as every
  game built by \<^verbatim>\<open>NewGameWithColors\<close> and driven through at most 2^31 core operations is,
  it becomes floor(lines cleared / 10) + 1. The same holds of the Dropping step of
  \<^verbatim>\<open>ProcessChainStep\<close> that ends the chain.
\<close>

theorem calculateScore_chain:
  assumes "0 < ChainCount g"
  shows "Score (calculateScore g) = i64 (Score g + 100 * ChainCount g * 2 ^ nat (ChainCount g - 1))
       \<and> LinesCleared (calculateScore g) = i64 (LinesCleared g + ChainCount g)
       \<and> Level (calculateScore g)
           = max (Level g) (i64 (go_div (i64 (LinesCleared g + ChainCount g)) 10 + 1))
       \<and> (inInt64 (Score g + 100 * ChainCount g * 2 ^ nat (ChainCount g - 1)) \<longrightarrow>
            Score (calculateScore g) = Score g + 100 * ChainCount g * 2 ^ nat (ChainCount g - 1))
       \<and> (inInt64 (LinesCleared g + ChainCount g) \<longrightarrow>
            LinesCleared (calculateScore g) = LinesCleared g + ChainCount g)
       \<and> (levelInStep g \<and> inInt64 (LinesCleared g + ChainCount g) \<longrightarrow>
            Level (calculateScore g) = (LinesCleared g + ChainCount g) div 10 + 1)
       \<and> (levelInStep g \<and> inInt64 (LinesCleared g + ChainCount g)
          \<and> inInt64 (Score g + 100 * ChainCount g * 2 ^ nat (ChainCount g - 1))
          \<and> State g = StateDropping \<and> \<not> hasClearablePuyos (applyGravity g) \<longrightarrow>
            Score (snd (ProcessChainStep g)) = Score g + 100 * ChainCount g * 2 ^ nat (ChainCount g - 1)
          \<and> LinesCleared (snd (ProcessChainStep g)) = LinesCleared g + ChainCount g
          \<and> Level (snd (ProcessChainStep g)) = (LinesCleared g + ChainCount g) div 10 + 1)
       \<and> (inInt64 (Score g) \<and> inInt64 (Score g + 3200) \<longrightarrow>
            map (\<lambda>d. Score (calculateScore (g\<lparr>ChainCount := d\<rparr>)) - Score g) [1, 2, 3, 4]
              = [100, 400, 1200, 3200])"
proof -
  let ?d = "ChainCount g"
  let ?delta = "100 * ?d * 2 ^ nat (?d - 1)"
  have s: "Score (calculateScore g) = i64 (Score g + ?delta)"
    using assms by (rule calculateScore_Score)
  have l: "LinesCleared (calculateScore g) = i64 (LinesCleared g + ?d)"
    using assms by (rule calculateScore_LinesCleared)
  have m: "Level (calculateScore g) = max (Level g) (i64 (go_div (i64 (LinesCleared g + ?d)) 10 + 1))"
    using assms by (simp add: calculateScore_Level)
  have s': "inInt64 (Score g + ?delta) \<longrightarrow> Score (calculateScore g) = Score g + ?delta"
    by (simp add: s i64_id)
  have l': "inInt64 (LinesCleared g + ?d) \<longrightarrow> LinesCleared (calculateScore g) = LinesCleared g + ?d"
    by (simp add: l i64_id)
  have lev: "Level (calculateScore h) = (LinesCleared h + ChainCount h) div 10 + 1"
    if "levelInStep h" "inInt64 (LinesCleared h + ChainCount h)" "0 < ChainCount h" for h
  proof -
    from that have "levelInStep (calculateScore h)"
      by (intro calculateScore_levelInStep) simp_all
    then have "Level (calculateScore h) = LinesCleared (calculateScore h) div 10 + 1"
      by (simp add: levelInStep_def)
    with that show ?thesis by (simp add: calculateScore_LinesCleared i64_id)
  qed
  have v: "levelInStep g \<and> inInt64 (LinesCleared g + ?d) \<longrightarrow>
            Level (calculateScore g) = (LinesCleared g + ?d) div 10 + 1"
    using lev [of g] assms by blast
  have p: "levelInStep g \<and> inInt64 (LinesCleared g + ?d) \<and> inInt64 (Score g + ?delta)
          \<and> State g = StateDropping \<and> \<not> hasClearablePuyos (applyGravity g) \<longrightarrow>
            Score (snd (ProcessChainStep g)) = Score g + ?delta
          \<and> LinesCleared (snd (ProcessChainStep g)) = LinesCleared g + ?d
          \<and> Level (snd (ProcessChainStep g)) = (LinesCleared g + ?d) div 10 + 1"
  proof (intro impI, elim conjE)
    assume inv: "levelInStep g" and fl: "inInt64 (LinesCleared g + ?d)"
      and fs: "inInt64 (Score g + ?delta)"
      and st: "State g = StateDropping" and nc: "\<not> hasClearablePuyos (applyGravity g)"
    let ?h = "applyGravity g"
    have c: "0 < ChainCount ?h" using assms by (simp add: applyGravity_totals)
    have i: "levelInStep ?h" using inv by (simp add: levelInStep_def applyGravity_totals)
    have f: "inInt64 (LinesCleared ?h + ChainCount ?h)" using fl by (simp add: applyGravity_totals)
    note lv = lev [OF i f c]
    have ps: "snd (ProcessChainStep g) = SpawnNewPair ((calculateScore ?h)\<lparr>State := StateNormal\<rparr>)"
      using ProcessChainStep_settles [OF st nc] by simp
    show "Score (snd (ProcessChainStep g)) = Score g + ?delta
          \<and> LinesCleared (snd (ProcessChainStep g)) = LinesCleared g + ?d
          \<and> Level (snd (ProcessChainStep g)) = (LinesCleared g + ?d) div 10 + 1"
      unfolding ps SpawnNewPair_totals
      using calculateScore_Score [OF c] calculateScore_LinesCleared [OF c] lv fl fs
      by (simp add: applyGravity_totals i64_id)
  qed
  have t: "inInt64 (Score g) \<and> inInt64 (Score g + 3200) \<longrightarrow>
            map (\<lambda>d. Score (calculateScore (g\<lparr>ChainCount := d\<rparr>)) - Score g) [1, 2, 3, 4]
              = [100, 400, 1200, 3200]"
  proof
    assume "inInt64 (Score g) \<and> inInt64 (Score g + 3200)"
    then have "inInt64 (Score g + 100)" "inInt64 (Score g + 400)" "inInt64 (Score g + 1200)"
      "inInt64 (Score g + 3200)"
      by (simp_all add: inInt64_def)
    then show "map (\<lambda>d. Score (calculateScore (g\<lparr>ChainCount := d\<rparr>)) - Score g) [1, 2, 3, 4]
              = [100, 400, 1200, 3200]"
      by (simp add: calculateScore_Score i64_id)
  qed
  from s l m s' l' v p t show ?thesis by blast
qed

theorem calculateScore_chain_witness:
  "0 < ChainCount settledGame \<and> levelInStep settledGame \<and> State settledGame = StateDropping
   \<and> \<not> hasClearablePuyos (applyGravity settledGame)
   \<and> Score settledGame = 0 \<and> Score (snd (ProcessChainStep settledGame)) = 100
   \<and> LinesCleared (snd (ProcessChainStep settledGame)) = 1
   \<and> Level (snd (ProcessChainStep settledGame)) = 1"
proof -
  have a: "ChainCount settledGame = 1" by code_simp
  have b: "levelInStep settledGame" by code_simp
  have c: "State settledGame = StateDropping" by code_simp
  have d: "\<not> hasClearablePuyos (applyGravity settledGame)" by code_simp
  have e: "Score settledGame = 0" by code_simp
  have f: "LinesCleared settledGame = 0" by code_simp
  have a': "0 < ChainCount settledGame" using a by simp
  have g: "inInt64 (LinesCleared settledGame + ChainCount settledGame)"
    "inInt64 (Score settledGame + 100 * ChainCount settledGame * 2 ^ nat (ChainCount settledGame - 1))"
    by (simp_all add: a e f inInt64_def)
  from calculateScore_chain [OF a'] b g c d
  have "Score (snd (ProcessChainStep settledGame))
          = Score settledGame + 100 * ChainCount settledGame * 2 ^ nat (ChainCount settledGame - 1)
        \<and> LinesCleared (snd (ProcessChainStep settledGame)) = LinesCleared settledGame + ChainCount settledGame
        \<and> Level (snd (ProcessChainStep settledGame))
            = (LinesCleared settledGame + ChainCount settledGame) div 10 + 1"
    by blast
  then have "Score (snd (ProcessChainStep settledGame)) = 100
        \<and> LinesCleared (snd (ProcessChainStep settledGame)) = 1
        \<and> Level (snd (ProcessChainStep settledGame)) = 1"
    by (simp add: a e f)
  with a' b c d e show ?thesis by blast
qed

section \<open>Gravity\<close>

lemma rev_upto_last: "0 \<le> n \<Longrightarrow> rev [0..n] = n # rev [0..n - 1]"
  by (simp add: upto_rec2)

lemma move_cell_down:
  "(pre @ c # replicate k Empty @ Empty # post)[length pre + Suc k := c, length pre := Empty]
     = pre @ Empty # replicate k Empty @ c # post"
  by (simp add: list_update_append nth_append)

lemma colStep_move:
  assumes "c \<noteq> Empty"
  shows "colStep (int (length pre)) (pre @ c # replicate k Empty @ Empty # post, int (length pre + Suc k))
           = (pre @ Empty # replicate k Empty @ c # post, int (length pre + k))"
proof -
  have a: "(pre @ c # replicate k Empty @ Empty # post) ! nat (int (length pre)) = c"
    by (simp add: nth_append)
  have b: "int (length pre + Suc k) \<noteq> int (length pre)" by simp
  have c: "nat (int (length pre + Suc k)) = length pre + Suc k" by simp
  have d: "int (length pre + Suc k) - 1 = int (length pre + k)" by simp
  show ?thesis
    unfolding colStep_def prod.case a c d nat_int using assms b move_cell_down [of pre c k post]
    by simp
qed

lemma colStep_loop:
  "fold colStep (rev [0..int (length pre) - 1])
        (pre @ replicate m Empty @ post, int (length pre) + int m - 1)
   = (replicate (length pre - length (filter (\<lambda>c. c \<noteq> Empty) pre) + m) Empty
        @ filter (\<lambda>c. c \<noteq> Empty) pre @ post,
      int (length pre) + int m - 1 - int (length (filter (\<lambda>c. c \<noteq> Empty) pre)))"
proof (induction pre arbitrary: m post rule: rev_induct)
  case Nil
  show ?case by simp
next
  case (snoc c pre)
  let ?n = "length pre"
  let ?nz = "\<lambda>c. c \<noteq> Empty"
  have le: "length (filter ?nz pre) \<le> ?n" by simp
  have r: "rev [0..int (length (pre @ [c])) - 1] = int ?n # rev [0..int ?n - 1]"
    using rev_upto_last [of "int ?n"] by simp
  have nth: "(pre @ [c] @ replicate m Empty @ post) ! ?n = c" by (simp add: nth_append)
  show ?case
  proof (cases "c = Empty")
    case True
    have st: "colStep (int ?n) ((pre @ [c]) @ replicate m Empty @ post, int (length (pre @ [c])) + int m - 1)
        = (pre @ replicate (Suc m) Empty @ post, int ?n + int (Suc m) - 1)"
      using True nth by (simp add: colStep_def)
    show ?thesis
      unfolding r fold_simps st snoc.IH [of "Suc m" post]
      using True le by (simp add: Suc_diff_le)
  next
    case False
    have st: "colStep (int ?n) ((pre @ [c]) @ replicate m Empty @ post, int (length (pre @ [c])) + int m - 1)
        = (pre @ replicate m Empty @ (c # post), int ?n + int m - 1)"
    proof (cases m)
      case 0
      with False nth show ?thesis by (simp add: colStep_def)
    next
      case (Suc k)
      have "replicate (Suc k) Empty = replicate k Empty @ [Empty]"
        by (simp add: replicate_append_same)
      then have shape: "(pre @ [c]) @ replicate m Empty @ post = pre @ c # replicate k Empty @ Empty # post"
        using Suc by simp
      have w: "int (length (pre @ [c])) + int m - 1 = int (?n + Suc k)" using Suc by simp
      have res: "pre @ Empty # replicate k Empty @ c # post = pre @ replicate m Empty @ (c # post)"
        using Suc by simp
      have w': "int (?n + k) = int ?n + int m - 1" using Suc by simp
      show ?thesis
        unfolding shape w colStep_move [OF False] res w' ..
    qed
    show ?thesis
      unfolding r fold_simps st snoc.IH [of m "c # post"]
      using False le by (simp add: Suc_diff_le)
  qed
qed

lemma colStep_compacts:
  "fst (fold colStep (rev [0..int (length col) - 1]) (col, int (length col) - 1)) = compact col"
  using colStep_loop [of col 0 "[]"] by (simp add: compact_def)

lemma compact_idem: "compact (compact col) = compact col"
  by (simp add: compact_def)


lemma wf_grid_length: "wf_grid gr \<Longrightarrow> length gr = 12"
  by (simp add: wf_grid_def FieldHeight_def)

lemma wf_grid_row: "wf_grid gr \<Longrightarrow> i < 12 \<Longrightarrow> length (gr ! i) = 6"
  by (simp add: wf_grid_def FieldHeight_def FieldWidth_def list_all_length)

lemma wf_grid_set_cell:
  assumes "wf_grid gr"
  shows "wf_grid (set_cell gr x y c)"
proof -
  have "length (set_cell gr x y c ! n) = nat FieldWidth" if "n < nat FieldHeight" for n
  proof (cases "n = nat y")
    case True
    with that assms show ?thesis by (simp add: wf_grid_def set_cell_def list_all_length)
  next
    case False
    with that assms show ?thesis by (simp add: wf_grid_def set_cell_def list_all_length)
  qed
  with assms show ?thesis by (simp add: wf_grid_def list_all_length set_cell_def)
qed

lemma length_column: "length (column gr x) = length gr"
  by (simp add: column_def)

lemma cell_column: "wf_grid gr \<Longrightarrow> 0 \<le> y \<Longrightarrow> y < FieldHeight \<Longrightarrow> cell gr x y = column gr x ! nat y"
  by (simp add: cell_def column_def wf_grid_length FieldHeight_def)

lemma column_set_cell_same:
  assumes "wf_grid gr" "0 \<le> x" "x < FieldWidth"
  shows "column (set_cell gr x y c) x = (column gr x)[nat y := c]"
proof (rule nth_equalityI)
  show "length (column (set_cell gr x y c) x) = length ((column gr x)[nat y := c])"
    by (simp add: column_def set_cell_def)
next
  fix i assume "i < length (column (set_cell gr x y c) x)"
  then have i: "i < 12" using assms(1) by (simp add: column_def set_cell_def wf_grid_length)
  have x: "nat x < length (gr ! i)" using assms i by (simp add: wf_grid_row FieldWidth_def)
  show "column (set_cell gr x y c) x ! i = (column gr x)[nat y := c] ! i"
    using i x assms(1)
    by (cases "i = nat y") (simp_all add: column_def set_cell_def wf_grid_length)
qed

lemma column_set_cell_other:
  assumes "0 \<le> x" "0 \<le> x'" "x' \<noteq> x"
  shows "column (set_cell gr x y c) x' = column gr x'"
proof (rule nth_equalityI)
  show "length (column (set_cell gr x y c) x') = length (column gr x')"
    by (simp add: column_def set_cell_def)
next
  fix i assume "i < length (column (set_cell gr x y c) x')"
  then have i: "i < length gr" by (simp add: column_def set_cell_def)
  have ne: "nat x' \<noteq> nat x" using assms by simp
  show "column (set_cell gr x y c) x' ! i = column gr x' ! i"
    using i ne by (cases "i = nat y") (simp_all add: column_def set_cell_def)
qed

lemma gravityStep_column:
  assumes wf: "wf_grid gr" and x: "0 \<le> x" "x < FieldWidth" and y: "0 \<le> y" "y < FieldHeight"
  shows "wf_grid (fst (gravityStep x y (gr, w)))
       \<and> colStep y (column gr x, w)
           = (column (fst (gravityStep x y (gr, w))) x, snd (gravityStep x y (gr, w)))
       \<and> (\<forall>x'. 0 \<le> x' \<and> x' \<noteq> x \<longrightarrow> column (fst (gravityStep x y (gr, w))) x' = column gr x')"
proof -
  have c: "cell gr x y = column gr x ! nat y" using wf y by (rule cell_column)
  have wf1: "wf_grid (set_cell gr x w (cell gr x y))" using wf by (rule wf_grid_set_cell)
  have two: "column (set_cell (set_cell gr x w (cell gr x y)) x y Empty) x
               = (column gr x)[nat w := column gr x ! nat y, nat y := Empty]"
    using column_set_cell_same [OF wf1 x] column_set_cell_same [OF wf x] c by simp
  have oth: "\<And>x'. 0 \<le> x' \<Longrightarrow> x' \<noteq> x \<Longrightarrow>
      column (set_cell (set_cell gr x w (cell gr x y)) x y Empty) x' = column gr x'"
    using x(1) by (simp add: column_set_cell_other)
  show ?thesis
    using wf wf1 two oth c
    by (simp add: gravityStep_def colStep_def wf_grid_set_cell)
qed

lemma gravityStep_fold:
  assumes x: "0 \<le> x" "x < FieldWidth"
  shows "wf_grid gr \<Longrightarrow> \<forall>y\<in>set ys. 0 \<le> y \<and> y < FieldHeight \<Longrightarrow>
     wf_grid (fst (fold (gravityStep x) ys (gr, w)))
     \<and> fold colStep ys (column gr x, w)
         = (column (fst (fold (gravityStep x) ys (gr, w))) x, snd (fold (gravityStep x) ys (gr, w)))
     \<and> (\<forall>x'. 0 \<le> x' \<and> x' \<noteq> x \<longrightarrow> column (fst (fold (gravityStep x) ys (gr, w))) x' = column gr x')"
proof (induction ys arbitrary: gr w)
  case Nil
  then show ?case by simp
next
  case (Cons y ys)
  obtain gr1 w1 where s: "gravityStep x y (gr, w) = (gr1, w1)" by (cases "gravityStep x y (gr, w)")
  from Cons.prems have y: "0 \<le> y" "y < FieldHeight" and ys: "\<forall>y\<in>set ys. 0 \<le> y \<and> y < FieldHeight"
    by simp_all
  from gravityStep_column [OF Cons.prems(1) x y, of w] s
  have one: "wf_grid gr1" "colStep y (column gr x, w) = (column gr1 x, w1)"
    "\<forall>x'. 0 \<le> x' \<and> x' \<noteq> x \<longrightarrow> column gr1 x' = column gr x'"
    by simp_all
  from Cons.IH [OF one(1) ys, of w1] one(2,3) s show ?case by simp
qed

lemma gravityColumn_compacts:
  assumes wf: "wf_grid gr" and x: "0 \<le> x" "x < FieldWidth"
  shows "wf_grid (gravityColumn x gr)" "column (gravityColumn x gr) x = compact (column gr x)"
    "\<And>x'. 0 \<le> x' \<Longrightarrow> x' \<noteq> x \<Longrightarrow> column (gravityColumn x gr) x' = column gr x'"
proof -
  have ys: "\<forall>y\<in>set (rev [0..FieldHeight - 1]). 0 \<le> y \<and> y < FieldHeight" by auto
  note f = gravityStep_fold [OF x wf ys, of "FieldHeight - 1"]
  have len: "int (length (column gr x)) = FieldHeight"
    using wf by (simp add: length_column wf_grid_length FieldHeight_def)
  show "wf_grid (gravityColumn x gr)" using f by (simp add: gravityColumn_def)
  show "\<And>x'. 0 \<le> x' \<Longrightarrow> x' \<noteq> x \<Longrightarrow> column (gravityColumn x gr) x' = column gr x'"
    using f by (simp add: gravityColumn_def)
  have "column (gravityColumn x gr) x
          = fst (fold colStep (rev [0..FieldHeight - 1]) (column gr x, FieldHeight - 1))"
    using f by (simp add: gravityColumn_def)
  also have "\<dots> = compact (column gr x)"
    using colStep_compacts [of "column gr x"] unfolding len .
  finally show "column (gravityColumn x gr) x = compact (column gr x)" .
qed

lemma gravityColumn_fold:
  "wf_grid gr \<Longrightarrow> distinct xs \<Longrightarrow> \<forall>x\<in>set xs. 0 \<le> x \<and> x < FieldWidth \<Longrightarrow>
     wf_grid (fold gravityColumn xs gr)
     \<and> (\<forall>x. 0 \<le> x \<longrightarrow> column (fold gravityColumn xs gr) x
                        = (if x \<in> set xs then compact (column gr x) else column gr x))"
proof (induction xs arbitrary: gr)
  case Nil
  then show ?case by simp
next
  case (Cons a xs)
  from Cons.prems have a: "0 \<le> a" "a < FieldWidth" "a \<notin> set xs"
    and xs: "distinct xs" "\<forall>x\<in>set xs. 0 \<le> x \<and> x < FieldWidth" by simp_all
  note g = gravityColumn_compacts [OF Cons.prems(1) a(1,2)]
  from Cons.IH [OF g(1) xs]
  have ih: "wf_grid (fold gravityColumn xs (gravityColumn a gr))"
    "\<And>x. 0 \<le> x \<Longrightarrow> column (fold gravityColumn xs (gravityColumn a gr)) x
        = (if x \<in> set xs then compact (column (gravityColumn a gr) x) else column (gravityColumn a gr) x)"
    by simp_all
  show ?case
  proof (intro conjI allI impI)
    show "wf_grid (fold gravityColumn (a # xs) gr)" using ih(1) by simp
  next
    fix x :: int assume x: "0 \<le> x"
    show "column (fold gravityColumn (a # xs) gr) x
            = (if x \<in> set (a # xs) then compact (column gr x) else column gr x)"
    proof (cases "x = a")
      case True
      with a(3) ih(2) [OF x] g(2) show ?thesis by simp
    next
      case False
      with ih(2) [OF x] g(3) [OF x False] show ?thesis by simp
    qed
  qed
qed

lemma gravityGrid_columns:
  assumes "wf_grid gr"
  shows "wf_grid (gravityGrid gr)"
    "\<And>x. 0 \<le> x \<Longrightarrow> x < FieldWidth \<Longrightarrow> column (gravityGrid gr) x = compact (column gr x)"
proof -
  have d: "distinct [0..FieldWidth - 1]" by simp
  have r: "\<forall>x\<in>set [0..FieldWidth - 1]. 0 \<le> x \<and> x < FieldWidth" by auto
  note f = gravityColumn_fold [OF assms d r]
  show "wf_grid (gravityGrid gr)" using f by (simp add: gravityGrid_def)
  show "\<And>x. 0 \<le> x \<Longrightarrow> x < FieldWidth \<Longrightarrow> column (gravityGrid gr) x = compact (column gr x)"
    using f by (simp add: gravityGrid_def)
qed

lemma grid_eq_by_columns:
  assumes "wf_grid gr1" "wf_grid gr2"
    and "\<And>x. 0 \<le> x \<Longrightarrow> x < FieldWidth \<Longrightarrow> column gr1 x = column gr2 x"
  shows "gr1 = gr2"
proof (rule nth_equalityI)
  show "length gr1 = length gr2" using assms(1,2) by (simp add: wf_grid_length)
next
  fix i assume "i < length gr1"
  then have i: "i < 12" using assms(1) by (simp add: wf_grid_length)
  show "gr1 ! i = gr2 ! i"
  proof (rule nth_equalityI)
    show "length (gr1 ! i) = length (gr2 ! i)" using assms(1,2) i by (simp add: wf_grid_row)
  next
    fix j assume "j < length (gr1 ! i)"
    then have j: "j < 6" using assms(1) i by (simp add: wf_grid_row)
    then have "column gr1 (int j) = column gr2 (int j)"
      by (intro assms(3)) (simp_all add: FieldWidth_def)
    then have "column gr1 (int j) ! i = column gr2 (int j) ! i" by simp
    then show "gr1 ! i ! j = gr2 ! i ! j"
      using i assms(1,2) by (simp add: column_def wf_grid_length)
  qed
qed

lemma gravityGrid_idem:
  assumes "wf_grid gr"
  shows "gravityGrid (gravityGrid gr) = gravityGrid gr"
proof (rule grid_eq_by_columns)
  note g = gravityGrid_columns [OF assms]
  show "wf_grid (gravityGrid (gravityGrid gr))" using g(1) by (rule gravityGrid_columns(1))
  show "wf_grid (gravityGrid gr)" by (rule g(1))
  fix x :: int assume x: "0 \<le> x" "x < FieldWidth"
  show "column (gravityGrid (gravityGrid gr)) x = column (gravityGrid gr) x"
    using gravityGrid_columns(2) [OF g(1) x] g(2) [OF x] by (simp add: compact_idem)
qed

lemma compact_Empty: "compact (Empty # col) = Empty # compact col"
proof -
  have "length (filter (\<lambda>c. c \<noteq> Empty) col) \<le> length col" by simp
  then show ?thesis by (simp add: compact_def Suc_diff_le)
qed

lemma compact_fixed_full:
  assumes "compact col = col" "col \<noteq> []" "hd col \<noteq> Empty"
  shows "filter (\<lambda>c. c \<noteq> Empty) col = col"
proof (cases "length col - length (filter (\<lambda>c. c \<noteq> Empty) col)")
  case 0
  with assms(1) show ?thesis by (simp add: compact_def)
next
  case (Suc k)
  then have "hd (compact col) = Empty" by (simp add: compact_def)
  with assms show ?thesis by simp
qed

lemma settledCol_compact: "settledCol col \<Longrightarrow> compact col = col"
proof (induction col rule: settledCol.induct)
  case (1 a b cs)
  then have ih: "compact (b # cs) = b # cs" and ab: "a = Empty \<or> b \<noteq> Empty" by simp_all
  show ?case
  proof (cases "a = Empty")
    case True
    with ih show ?thesis by (simp add: compact_Empty)
  next
    case False
    with ab have "b \<noteq> Empty" by simp
    with compact_fixed_full [OF ih] have "filter (\<lambda>c. c \<noteq> Empty) (b # cs) = b # cs" by simp
    with False show ?thesis by (simp add: compact_def)
  qed
qed (simp_all add: compact_def)

lemma gravityGrid_settled:
  assumes wf: "wf_grid gr" and s: "settledGrid gr"
  shows "gravityGrid gr = gr"
proof (rule grid_eq_by_columns)
  show "wf_grid (gravityGrid gr)" using wf by (rule gravityGrid_columns(1))
  show "wf_grid gr" by (rule wf)
  fix x :: int assume x: "0 \<le> x" "x < FieldWidth"
  then have "x \<in> set [0..FieldWidth - 1]" by simp
  with s have "settledCol (column gr x)" by (simp add: settledGrid_def list_all_iff)
  then show "column (gravityGrid gr) x = column gr x"
    using gravityGrid_columns(2) [OF wf x] by (simp add: settledCol_compact)
qed

lemma settledCol_nonempty: "list_all (\<lambda>c. c \<noteq> Empty) col \<Longrightarrow> settledCol col"
  by (induction col rule: settledCol.induct) simp_all

lemma settledCol_Empty: "settledCol col \<Longrightarrow> settledCol (Empty # col)"
  by (cases col) simp_all

lemma settledCol_iff_compact: "settledCol col = (compact col = col)"
proof
  assume "compact col = col"
  have "settledCol (replicate k Empty @ filter (\<lambda>c. c \<noteq> Empty) col)" for k
    by (induction k) (simp_all add: settledCol_nonempty list_all_iff settledCol_Empty)
  then have "settledCol (compact col)" by (simp add: compact_def)
  with \<open>compact col = col\<close> show "settledCol col" by simp
qed (rule settledCol_compact)

lemma gravityGrid_settled_column:
  assumes wf: "wf_grid gr" and x: "0 \<le> x" "x < FieldWidth" and s: "settledCol (column gr x)"
    and y: "0 \<le> y" "y < FieldHeight"
  shows "cell (gravityGrid gr) x y = cell gr x y"
proof -
  have "column (gravityGrid gr) x = column gr x"
    using gravityGrid_columns(2) [OF wf x] s by (simp add: settledCol_compact)
  then show ?thesis
    using cell_column [OF gravityGrid_columns(1) [OF wf] y, of x] cell_column [OF wf y, of x]
    by simp
qed

text \<open>
  C9. \<^verbatim>\<open>applyGravity\<close> is idempotent: on every board, applying it twice gives the same
  game as applying it once; and on a board whose columns are already settled it changes
  nothing. Column by column: every column becomes its compaction, whatever the other
  columns hold, and a column that is already compacted (no non-empty cell directly above
  an empty one) keeps every one of its cells, also when other columns of the board move.
\<close>

theorem applyGravity_idempotent:
  assumes "wf_grid (Grid (Field g))"
  shows "applyGravity (applyGravity g) = applyGravity g
       \<and> (settledGrid (Grid (Field g)) \<longrightarrow> applyGravity g = g)
       \<and> (\<forall>x. 0 \<le> x \<and> x < FieldWidth \<longrightarrow>
            column (Grid (Field (applyGravity g))) x = compact (column (Grid (Field g)) x))
       \<and> (\<forall>x. 0 \<le> x \<and> x < FieldWidth \<and> settledCol (column (Grid (Field g)) x) \<longrightarrow>
            column (Grid (Field (applyGravity g))) x = column (Grid (Field g)) x
          \<and> (\<forall>y. 0 \<le> y \<and> y < FieldHeight \<longrightarrow>
               cell (Grid (Field (applyGravity g))) x y = cell (Grid (Field g)) x y))"
proof -
  have a: "applyGravity (applyGravity g) = applyGravity g"
    using gravityGrid_idem [OF assms] by (simp add: applyGravity_def)
  have b: "settledGrid (Grid (Field g)) \<longrightarrow> applyGravity g = g"
    using gravityGrid_settled [OF assms] by (simp add: applyGravity_def)
  have c: "\<forall>x. 0 \<le> x \<and> x < FieldWidth \<longrightarrow>
            column (Grid (Field (applyGravity g))) x = compact (column (Grid (Field g)) x)"
    using gravityGrid_columns(2) [OF assms] by (simp add: applyGravity_def)
  have d: "\<forall>x. 0 \<le> x \<and> x < FieldWidth \<and> settledCol (column (Grid (Field g)) x) \<longrightarrow>
            column (Grid (Field (applyGravity g))) x = column (Grid (Field g)) x
          \<and> (\<forall>y. 0 \<le> y \<and> y < FieldHeight \<longrightarrow>
               cell (Grid (Field (applyGravity g))) x y = cell (Grid (Field g)) x y)"
    using c gravityGrid_settled_column [OF assms]
    by (simp add: applyGravity_def settledCol_compact)
  from a b c d show ?thesis by blast
qed

theorem applyGravity_idempotent_witness:
  "wf_grid (Grid (Field floatingGame))
   \<and> applyGravity (applyGravity floatingGame) = applyGravity floatingGame
   \<and> Grid (Field (applyGravity floatingGame)) \<noteq> Grid (Field floatingGame)
   \<and> wf_grid (Grid (Field tripleGame)) \<and> settledGrid (Grid (Field tripleGame))
   \<and> applyGravity tripleGame = tripleGame
   \<and> wf_grid (Grid (Field mixedGame)) \<and> \<not> settledGrid (Grid (Field mixedGame))
   \<and> (0::int) \<le> 0 \<and> 0 < FieldWidth \<and> settledCol (column (Grid (Field mixedGame)) 0)
   \<and> column (Grid (Field (applyGravity mixedGame))) 0 = replicate 10 Empty @ [Yellow, Yellow]
   \<and> (0::int) \<le> 11 \<and> 11 < FieldHeight
   \<and> cell (Grid (Field (applyGravity mixedGame))) 0 11 = Yellow
   \<and> (0::int) \<le> 2 \<and> 2 < FieldWidth
   \<and> column (Grid (Field (applyGravity mixedGame))) 2 = replicate 11 Empty @ [Red]"
proof -
  have a: "wf_grid (Grid (Field floatingGame))" by code_simp
  have b: "Grid (Field (applyGravity floatingGame)) \<noteq> Grid (Field floatingGame)" by code_simp
  have c: "wf_grid (Grid (Field tripleGame))" by code_simp
  have d: "settledGrid (Grid (Field tripleGame))" by code_simp
  have e: "wf_grid (Grid (Field mixedGame))" by code_simp
  have f: "\<not> settledGrid (Grid (Field mixedGame))" by code_simp
  have h: "settledCol (column (Grid (Field mixedGame)) 0)" by code_simp
  have i: "column (Grid (Field mixedGame)) 0 = replicate 10 Empty @ [Yellow, Yellow]" by code_simp
  have j: "compact (column (Grid (Field mixedGame)) 2) = replicate 11 Empty @ [Red]" by code_simp
  have k: "cell (Grid (Field mixedGame)) 0 11 = Yellow" by code_simp
  have w: "(0::int) \<le> 0 \<and> 0 < FieldWidth" "(0::int) \<le> 11 \<and> 11 < FieldHeight"
    "(0::int) \<le> 2 \<and> 2 < FieldWidth"
    by (simp_all add: FieldWidth_def FieldHeight_def)
  note t1 = applyGravity_idempotent [OF a]
  note t2 = applyGravity_idempotent [OF c]
  note t3 = applyGravity_idempotent [OF e]
  from t1 have p1: "applyGravity (applyGravity floatingGame) = applyGravity floatingGame" by blast
  from t2 d have p2: "applyGravity tripleGame = tripleGame" by blast
  from t3 w(1) h have p3: "column (Grid (Field (applyGravity mixedGame))) 0 = column (Grid (Field mixedGame)) 0"
    by blast
  from t3 w(1,2) h have p4: "cell (Grid (Field (applyGravity mixedGame))) 0 11 = cell (Grid (Field mixedGame)) 0 11"
    by blast
  from t3 w(3) have p5: "column (Grid (Field (applyGravity mixedGame))) 2 = compact (column (Grid (Field mixedGame)) 2)"
    by blast
  from a b c d e f h w p1 p2 p3 [unfolded i] p4 [unfolded k] p5 [unfolded j] show ?thesis by blast
qed

section \<open>Flood fill and clearing\<close>

lemma findConnectedGroup_skip:
  "\<not> colored gr c \<lparr>X = x, Y = y\<rparr> \<or> \<lparr>X = x, Y = y\<rparr> \<in> V \<Longrightarrow> findConnectedGroup gr x y c V = V"
  by (subst findConnectedGroup.simps) (auto simp: colored_def inBoard_def)

lemma findConnectedGroup_visit:
  "colored gr c \<lparr>X = x, Y = y\<rparr> \<Longrightarrow> \<lparr>X = x, Y = y\<rparr> \<notin> V \<Longrightarrow>
     findConnectedGroup gr x y c V =
       findConnectedGroup gr x (y - 1) c
         (findConnectedGroup gr x (y + 1) c
           (findConnectedGroup gr (x - 1) y c
             (findConnectedGroup gr (x + 1) y c (insert \<lparr>X = x, Y = y\<rparr> V))))"
  by (subst findConnectedGroup.simps) (auto simp: colored_def inBoard_def Let_def)

lemma explores_skip: "\<not> colored gr c n \<or> n \<in> V \<Longrightarrow> explores gr c n V V"
  by (auto simp: explores_def)

lemma adjacent_cases:
  assumes "adjacent \<lparr>X = x, Y = y\<rparr> r"
  shows "r = \<lparr>X = x + 1, Y = y\<rparr> \<or> r = \<lparr>X = x - 1, Y = y\<rparr>
       \<or> r = \<lparr>X = x, Y = y + 1\<rparr> \<or> r = \<lparr>X = x, Y = y - 1\<rparr>"
proof -
  obtain a b where r: "r = \<lparr>X = a, Y = b\<rparr>" by (cases r)
  from assms have "\<bar>x - a\<bar> + \<bar>y - b\<bar> = 1" by (simp add: adjacent_def r)
  then have "(a = x + 1 \<and> b = y) \<or> (a = x - 1 \<and> b = y) \<or> (a = x \<and> b = y + 1) \<or> (a = x \<and> b = y - 1)"
    by arith
  then show ?thesis by (auto simp: r)
qed

lemma exploresD:
  assumes "explores gr c n V R"
  shows "V \<subseteq> R"
    and "colored gr c n \<Longrightarrow> n \<in> R"
    and "\<And>q. q \<in> R \<Longrightarrow> q \<notin> V \<Longrightarrow> colored gr c n"
    and "\<And>q. q \<in> R \<Longrightarrow> q \<notin> V \<Longrightarrow> (n, q) \<in> (sameColorAdj gr c)\<^sup>*"
    and "\<And>q r. q \<in> R \<Longrightarrow> q \<notin> V \<Longrightarrow> (q, r) \<in> sameColorAdj gr c \<Longrightarrow> r \<in> R"
  using assms unfolding explores_def by blast+

lemma exploresI:
  assumes "V \<subseteq> R" and "n \<in> R"
    and "\<And>q. q \<in> R \<Longrightarrow> q \<notin> V \<Longrightarrow> colored gr c n \<and> (n, q) \<in> (sameColorAdj gr c)\<^sup>*"
    and "\<And>q r. q \<in> R \<Longrightarrow> q \<notin> V \<Longrightarrow> (q, r) \<in> sameColorAdj gr c \<Longrightarrow> r \<in> R"
  shows "explores gr c n V R"
  using assms unfolding explores_def by blast

lemma explores_visit:
  assumes p: "colored gr c p" "p \<notin> V"
    and nb: "\<And>r. adjacent p r \<Longrightarrow> r = n1 \<or> r = n2 \<or> r = n3 \<or> r = n4"
    and adj: "adjacent p n1" "adjacent p n2" "adjacent p n3" "adjacent p n4"
    and e1: "explores gr c n1 (insert p V) v1"
    and e2: "explores gr c n2 v1 v2"
    and e3: "explores gr c n3 v2 v3"
    and e4: "explores gr c n4 v3 v4"
  shows "explores gr c p V v4"
proof (rule exploresI)
  let ?A = "sameColorAdj gr c"
  note sub = exploresD(1) [OF e1] exploresD(1) [OF e2] exploresD(1) [OF e3] exploresD(1) [OF e4]
  from sub show "V \<subseteq> v4" by blast
  from sub show "p \<in> v4" by blast
  have reach: "(p, q) \<in> ?A\<^sup>*" if "colored gr c n" "(n, q) \<in> ?A\<^sup>*" "adjacent p n" for n q
  proof -
    from p(1) that(1,3) have "(p, n) \<in> ?A" by (simp add: sameColorAdj_def)
    then show ?thesis using that(2) by (rule converse_rtrancl_into_rtrancl)
  qed
  have split: "q = p \<or> (q \<in> v1 \<and> q \<notin> insert p V) \<or> (q \<in> v2 \<and> q \<notin> v1)
        \<or> (q \<in> v3 \<and> q \<notin> v2) \<or> (q \<in> v4 \<and> q \<notin> v3)" if "q \<in> v4" "q \<notin> V" for q
    using that by blast
  show "colored gr c p \<and> (p, q) \<in> ?A\<^sup>*" if q: "q \<in> v4" "q \<notin> V" for q
  proof -
    from split [OF q] consider "q = p" | "q \<in> v1" "q \<notin> insert p V" | "q \<in> v2" "q \<notin> v1"
      | "q \<in> v3" "q \<notin> v2" | "q \<in> v4" "q \<notin> v3"
      by blast
    then have "(p, q) \<in> ?A\<^sup>*"
    proof cases
      case 1 then show ?thesis by simp
    next
      case 2 show ?thesis
        by (rule reach [OF exploresD(3) [OF e1 2] exploresD(4) [OF e1 2] adj(1)])
    next
      case 3 show ?thesis
        by (rule reach [OF exploresD(3) [OF e2 3] exploresD(4) [OF e2 3] adj(2)])
    next
      case 4 show ?thesis
        by (rule reach [OF exploresD(3) [OF e3 4] exploresD(4) [OF e3 4] adj(3)])
    next
      case 5 show ?thesis
        by (rule reach [OF exploresD(3) [OF e4 5] exploresD(4) [OF e4 5] adj(4)])
    qed
    with p(1) show ?thesis by simp
  qed
  show "r \<in> v4" if q: "q \<in> v4" "q \<notin> V" and qr: "(q, r) \<in> ?A" for q r
  proof -
    from split [OF q] consider "q = p" | "q \<in> v1" "q \<notin> insert p V" | "q \<in> v2" "q \<notin> v1"
      | "q \<in> v3" "q \<notin> v2" | "q \<in> v4" "q \<notin> v3"
      by blast
    then show ?thesis
    proof cases
      case 1
      with qr have r: "colored gr c r" "adjacent p r" by (simp_all add: sameColorAdj_def)
      from nb [OF r(2)] consider "r = n1" | "r = n2" | "r = n3" | "r = n4" by blast
      then show ?thesis
      proof cases
        case 1 with exploresD(2) [OF e1] r(1) have "r \<in> v1" by simp
        with sub show ?thesis by blast
      next
        case 2 with exploresD(2) [OF e2] r(1) have "r \<in> v2" by simp
        with sub show ?thesis by blast
      next
        case 3 with exploresD(2) [OF e3] r(1) have "r \<in> v3" by simp
        with sub show ?thesis by blast
      next
        case 4 with exploresD(2) [OF e4] r(1) show ?thesis by simp
      qed
    next
      case 2 from exploresD(5) [OF e1 2 qr] sub show ?thesis by blast
    next
      case 3 from exploresD(5) [OF e2 3 qr] sub show ?thesis by blast
    next
      case 4 from exploresD(5) [OF e3 4 qr] sub show ?thesis by blast
    next
      case 5 from exploresD(5) [OF e4 5 qr] show ?thesis .
    qed
  qed
qed

lemma findConnectedGroup_explores:
  "explores gr c \<lparr>X = x, Y = y\<rparr> V (findConnectedGroup gr x y c V)"
proof (induction gr x y c V rule: findConnectedGroup.induct)
  case (1 gr x y c V)
  let ?p = "\<lparr>X = x, Y = y\<rparr>"
  show ?case
  proof (cases "colored gr c ?p \<and> ?p \<notin> V")
    case False
    then have "findConnectedGroup gr x y c V = V" by (intro findConnectedGroup_skip) blast
    with False show ?thesis by (simp add: explores_skip)
  next
    case True
    then have a: "\<not> (x < 0 \<or> FieldWidth \<le> x \<or> y < 0 \<or> FieldHeight \<le> y)"
      and b: "\<not> (cell gr x y \<noteq> c \<or> ?p \<in> V)"
      by (auto simp: colored_def inBoard_def)
    define v0 where "v0 = insert ?p V"
    define v1 where "v1 = findConnectedGroup gr (x + 1) y c v0"
    define v2 where "v2 = findConnectedGroup gr (x - 1) y c v1"
    define v3 where "v3 = findConnectedGroup gr x (y + 1) c v2"
    define v4 where "v4 = findConnectedGroup gr x (y - 1) c v3"
    have e1: "explores gr c \<lparr>X = x + 1, Y = y\<rparr> (insert ?p V) v1"
      using "1.IH"(1) [OF a b v0_def] unfolding v1_def v0_def .
    have e2: "explores gr c \<lparr>X = x - 1, Y = y\<rparr> v1 v2"
      using "1.IH"(2) [OF a b v0_def v1_def] unfolding v2_def .
    have e3: "explores gr c \<lparr>X = x, Y = y + 1\<rparr> v2 v3"
      using "1.IH"(3) [OF a b v0_def v1_def v2_def] unfolding v3_def .
    have e4: "explores gr c \<lparr>X = x, Y = y - 1\<rparr> v3 v4"
      using "1.IH"(4) [OF a b v0_def v1_def v2_def v3_def] unfolding v4_def .
    have r: "findConnectedGroup gr x y c V = v4"
      using True by (simp add: findConnectedGroup_visit v0_def v1_def v2_def v3_def v4_def)
    have "explores gr c ?p V v4"
    proof (rule explores_visit [OF _ _ _ _ _ _ _ e1 e2 e3 e4])
      show "colored gr c ?p" "?p \<notin> V" using True by simp_all
      show "\<And>r. adjacent ?p r \<Longrightarrow> r = \<lparr>X = x + 1, Y = y\<rparr> \<or> r = \<lparr>X = x - 1, Y = y\<rparr>
           \<or> r = \<lparr>X = x, Y = y + 1\<rparr> \<or> r = \<lparr>X = x, Y = y - 1\<rparr>"
        by (rule adjacent_cases)
    qed (simp_all add: adjacent_def)
    then show ?thesis unfolding r .
  qed
qed

lemma findConnectedGroup_group:
  assumes "colored gr c p"
  shows "findConnectedGroup gr (X p) (Y p) c {} = {q. (p, q) \<in> (sameColorAdj gr c)\<^sup>*}"
proof -
  let ?R = "findConnectedGroup gr (X p) (Y p) c {}"
  have pp: "\<lparr>X = X p, Y = Y p\<rparr> = p" by simp
  have e: "explores gr c p {} ?R"
    using findConnectedGroup_explores [of gr c "X p" "Y p" "{}"] unfolding pp .
  have "q \<in> ?R" if "(p, q) \<in> (sameColorAdj gr c)\<^sup>*" for q
    using that
  proof (induction rule: rtrancl_induct)
    case base
    from assms show ?case by (rule exploresD(2) [OF e])
  next
    case (step q r)
    show ?case by (rule exploresD(5) [OF e step.IH _ step.hyps(2)]) simp
  qed
  moreover have "(p, q) \<in> (sameColorAdj gr c)\<^sup>*" if "q \<in> ?R" for q
    by (rule exploresD(4) [OF e that]) simp
  ultimately show ?thesis by blast
qed

lemma adjacent_sym: "adjacent p q \<Longrightarrow> adjacent q p"
  by (simp add: adjacent_def abs_minus_commute)

lemma sameColorAdj_sym: "sym (sameColorAdj gr c)"
  by (auto simp: sym_def sameColorAdj_def adjacent_sym)

lemma sameColorAdj_rtrancl_sym: "(p, q) \<in> (sameColorAdj gr c)\<^sup>* \<Longrightarrow> (q, p) \<in> (sameColorAdj gr c)\<^sup>*"
  using sym_rtrancl [OF sameColorAdj_sym] by (simp add: sym_def)

lemma sameColorAdj_rtrancl_colored:
  "(p, q) \<in> (sameColorAdj gr c)\<^sup>* \<Longrightarrow> colored gr c p \<Longrightarrow> colored gr c q"
  by (induction rule: rtrancl_induct) (simp_all add: sameColorAdj_def)

lemma connectedGroup_self: "p \<in> connectedGroup gr p"
  by (simp add: connectedGroup_def)

lemma connectedGroup_colored:
  assumes "inBoard p" "q \<in> connectedGroup gr p"
  shows "inBoard q \<and> cell gr (X q) (Y q) = cell gr (X p) (Y p)"
proof -
  from assms(1) have "colored gr (cell gr (X p) (Y p)) p" by (simp add: colored_def)
  with assms(2) have "colored gr (cell gr (X p) (Y p)) q"
    unfolding connectedGroup_def by (auto intro: sameColorAdj_rtrancl_colored)
  then show ?thesis by (simp add: colored_def)
qed

lemma connectedGroup_class:
  assumes "inBoard p" "q \<in> connectedGroup gr p"
  shows "connectedGroup gr q = connectedGroup gr p"
proof -
  let ?A = "sameColorAdj gr (cell gr (X p) (Y p))"
  from connectedGroup_colored [OF assms] have c: "cell gr (X q) (Y q) = cell gr (X p) (Y p)" by simp
  from assms(2) have pq: "(p, q) \<in> ?A\<^sup>*" by (simp add: connectedGroup_def)
  then have qp: "(q, p) \<in> ?A\<^sup>*" by (rule sameColorAdj_rtrancl_sym)
  have "(q, r) \<in> ?A\<^sup>* \<longleftrightarrow> (p, r) \<in> ?A\<^sup>*" for r
    using pq qp by (meson rtrancl_trans)
  then show ?thesis by (simp add: connectedGroup_def c)
qed

lemma finite_connectedGroup: "inBoard p \<Longrightarrow> finite (connectedGroup gr p)"
proof (rule finite_subset)
  assume "inBoard p"
  then show "connectedGroup gr p \<subseteq> boardCells"
    using connectedGroup_colored [of p _ gr] by (auto simp: inBoard_boardCells)
  show "finite boardCells" by (rule finite_boardCells)
qed

lemma group_unchanged:
  assumes dim: "\<And>q. inBoard q \<Longrightarrow> cell gr (X q) (Y q) = cell g0 (X q) (Y q) \<or> cell gr (X q) (Y q) = Empty"
    and same: "\<And>q. inBoard q \<Longrightarrow> q \<notin> V \<Longrightarrow> cell gr (X q) (Y q) = cell g0 (X q) (Y q)"
    and closed: "\<And>q. q \<in> V \<Longrightarrow> inBoard q \<and> connectedGroup g0 q \<subseteq> V"
    and p: "inBoard p" "p \<notin> V" "cell g0 (X p) (Y p) \<noteq> Empty"
  shows "connectedGroup gr p = connectedGroup g0 p"
proof -
  let ?c = "cell g0 (X p) (Y p)"
  have cp: "cell gr (X p) (Y p) = ?c" using same p by simp
  have sub: "sameColorAdj gr ?c \<subseteq> sameColorAdj g0 ?c"
  proof -
    have "colored g0 ?c q" if "colored gr ?c q" for q
      using that dim [of q] p(3) by (auto simp: colored_def)
    then show ?thesis by (auto simp: sameColorAdj_def)
  qed
  have fwd: "(p, q) \<in> (sameColorAdj g0 ?c)\<^sup>*" if "(p, q) \<in> (sameColorAdj gr ?c)\<^sup>*" for q
    using that rtrancl_mono [OF sub] by blast
  have bwd: "(p, q) \<in> (sameColorAdj gr ?c)\<^sup>* \<and> q \<notin> V" if "(p, q) \<in> (sameColorAdj g0 ?c)\<^sup>*" for q
    using that
  proof (induction rule: rtrancl_induct)
    case base
    from p(2) show ?case by simp
  next
    case (step q r)
    from step.hyps(2) have q: "colored g0 ?c q" and r: "colored g0 ?c r" and a: "adjacent q r"
      by (simp_all add: sameColorAdj_def)
    have rV: "r \<notin> V"
    proof
      assume "r \<in> V"
      with closed have "connectedGroup g0 r \<subseteq> V" by blast
      moreover have "(r, q) \<in> sameColorAdj g0 ?c"
        using q r a by (simp add: sameColorAdj_def adjacent_sym)
      then have "q \<in> connectedGroup g0 r" using r by (auto simp: connectedGroup_def colored_def)
      ultimately show False using step.IH by blast
    qed
    from step.IH q same have "colored gr ?c q" by (simp add: colored_def)
    moreover from rV r same have "colored gr ?c r" by (simp add: colored_def)
    ultimately have "(q, r) \<in> sameColorAdj gr ?c" using a by (simp add: sameColorAdj_def)
    with step.IH rV show ?case by (auto intro: rtrancl_into_rtrancl)
  qed
  show ?thesis unfolding connectedGroup_def cp using fwd bwd by blast
qed

lemma findConnectedGroup_connectedGroup:
  "inBoard p \<Longrightarrow> findConnectedGroup gr (X p) (Y p) (cell gr (X p) (Y p)) {} = connectedGroup gr p"
  unfolding connectedGroup_def by (rule findConnectedGroup_group) (simp add: colored_def)

lemma wf_grid_clearGroup: "wf_grid gr \<Longrightarrow> wf_grid (clearGroup G gr)"
  by (simp add: wf_grid_def clearGroup_def list_all_length nth_enumerate_eq)

lemma cell_clearGroup:
  assumes "wf_grid gr" "inBoard q"
  shows "cell (clearGroup G gr) (X q) (Y q) = (if q \<in> G then Empty else cell gr (X q) (Y q))"
proof -
  from assms(2) have y: "nat (Y q) < 12" and x: "nat (X q) < 6" and nn: "0 \<le> X q" "0 \<le> Y q"
    by (auto simp: inBoard_def FieldHeight_def FieldWidth_def)
  from assms(1) y have ly: "nat (Y q) < length gr" and lx: "nat (X q) < length (gr ! nat (Y q))"
    using x by (simp_all add: wf_grid_def FieldHeight_def FieldWidth_def list_all_length)
  have q: "\<lparr>X = X q, Y = Y q\<rparr> = q" by (cases q) simp
  show ?thesis
    using ly lx nn by (simp add: cell_def clearGroup_def nth_enumerate_eq q)
qed

lemma clearInvI:
  assumes "wf_grid gr"
    and "\<And>q. inBoard q \<Longrightarrow>
          cell gr (X q) (Y q) = (if q \<in> V \<and> 4 \<le> card (connectedGroup g0 q) then Empty
                                 else cell g0 (X q) (Y q))"
    and "\<And>q. q \<in> V \<Longrightarrow> inBoard q \<and> cell g0 (X q) (Y q) \<noteq> Empty \<and> connectedGroup g0 q \<subseteq> V"
    and "\<And>q. q \<in> D \<Longrightarrow> cell g0 (X q) (Y q) \<noteq> Empty \<Longrightarrow> q \<in> V"
    and "cl \<longleftrightarrow> (\<exists>q\<in>V. 4 \<le> card (connectedGroup g0 q))"
  shows "clearInv g0 D (gr, V, cl)"
  using assms by (simp add: clearInv_def)

lemma clearStep_keeps_clearInv:
  assumes inv: "clearInv g0 D st" and p: "inBoard p"
  shows "clearInv g0 (insert p D) (clearStep p st)"
proof -
  obtain gr V cl where st: "st = (gr, V, cl)" by (cases st)
  let ?big = "\<lambda>q. 4 \<le> card (connectedGroup g0 q)"
  from inv st have wf: "wf_grid gr"
    and cells: "\<And>q. inBoard q \<Longrightarrow>
          cell gr (X q) (Y q) = (if q \<in> V \<and> ?big q then Empty else cell g0 (X q) (Y q))"
    and vis: "\<And>q. q \<in> V \<Longrightarrow> inBoard q \<and> cell g0 (X q) (Y q) \<noteq> Empty \<and> connectedGroup g0 q \<subseteq> V"
    and seen: "\<And>q. q \<in> D \<Longrightarrow> cell g0 (X q) (Y q) \<noteq> Empty \<Longrightarrow> q \<in> V"
    and flag: "cl \<longleftrightarrow> (\<exists>q\<in>V. ?big q)"
    by (simp_all add: clearInv_def)
  show ?thesis
  proof (cases "cell gr (X p) (Y p) \<noteq> Empty \<and> p \<notin> V")
    case False
    then have same: "clearStep p st = (gr, V, cl)" by (auto simp: clearStep_def st)
    have here: "p \<in> V" if "cell g0 (X p) (Y p) \<noteq> Empty"
    proof (rule ccontr)
      assume "p \<notin> V"
      with cells [OF p] that have "cell gr (X p) (Y p) \<noteq> Empty" by simp
      with False \<open>p \<notin> V\<close> show False by simp
    qed
    have seen': "q \<in> V" if "q \<in> insert p D" "cell g0 (X q) (Y q) \<noteq> Empty" for q
      using that seen [of q] here by auto
    show ?thesis
      unfolding same by (rule clearInvI [OF wf cells vis seen' flag])
  next
    case True
    then have pV: "p \<notin> V" and ne: "cell gr (X p) (Y p) \<noteq> Empty" by simp_all
    from cells [OF p] pV have c0: "cell gr (X p) (Y p) = cell g0 (X p) (Y p)" by simp
    let ?G = "connectedGroup g0 p"
    have "connectedGroup gr p = ?G"
    proof (rule group_unchanged [where V = V])
      show "\<And>q. inBoard q \<Longrightarrow> cell gr (X q) (Y q) = cell g0 (X q) (Y q) \<or> cell gr (X q) (Y q) = Empty"
        using cells by simp
      show "\<And>q. inBoard q \<Longrightarrow> q \<notin> V \<Longrightarrow> cell gr (X q) (Y q) = cell g0 (X q) (Y q)"
        using cells by simp
      show "\<And>q. q \<in> V \<Longrightarrow> inBoard q \<and> connectedGroup g0 q \<subseteq> V" using vis by blast
      show "inBoard p" "p \<notin> V" "cell g0 (X p) (Y p) \<noteq> Empty" using p pV ne c0 by simp_all
    qed
    then have grp: "findConnectedGroup gr (X p) (Y p) (cell gr (X p) (Y p)) {} = ?G"
      using findConnectedGroup_connectedGroup [OF p, of gr] by simp
    have inG: "inBoard q \<and> cell g0 (X q) (Y q) \<noteq> Empty \<and> connectedGroup g0 q = ?G" if "q \<in> ?G" for q
      using connectedGroup_colored [OF p that] connectedGroup_class [OF p that] ne c0 by simp
    have step: "clearStep p st =
        (if ?big p then (clearGroup ?G gr, V \<union> ?G, True) else (gr, V \<union> ?G, cl))"
      using True by (simp add: clearStep_def st grp Let_def MinChain_def)
    have pG: "p \<in> ?G" by (rule connectedGroup_self)
    have vis': "inBoard q \<and> cell g0 (X q) (Y q) \<noteq> Empty \<and> connectedGroup g0 q \<subseteq> V \<union> ?G"
      if "q \<in> V \<union> ?G" for q
      using that vis [of q] inG [of q] by auto
    have seen': "q \<in> V \<union> ?G" if "q \<in> insert p D" "cell g0 (X q) (Y q) \<noteq> Empty" for q
      using that seen [of q] pG by auto
    show ?thesis
    proof (cases "?big p")
      case True
      have cells': "cell (clearGroup ?G gr) (X q) (Y q)
                      = (if q \<in> V \<union> ?G \<and> ?big q then Empty else cell g0 (X q) (Y q))"
        if q: "inBoard q" for q
      proof (cases "q \<in> ?G")
        case True
        with inG [OF True] \<open>?big p\<close> show ?thesis by (simp add: cell_clearGroup [OF wf q])
      next
        case False
        with cells [OF q] show ?thesis by (simp add: cell_clearGroup [OF wf q])
      qed
      have flag': "True \<longleftrightarrow> (\<exists>q\<in>V \<union> ?G. ?big q)" using pG True by blast
      have "clearInv g0 (insert p D) (clearGroup ?G gr, V \<union> ?G, True)"
        by (rule clearInvI [OF wf_grid_clearGroup [OF wf] cells' vis' seen' flag'])
      with True show ?thesis unfolding step by simp
    next
      case False
      have small: "\<not> ?big q" if "q \<in> ?G" for q using inG [OF that] False by simp
      have cells': "cell gr (X q) (Y q)
                      = (if q \<in> V \<union> ?G \<and> ?big q then Empty else cell g0 (X q) (Y q))"
        if q: "inBoard q" for q
        using cells [OF q] small [of q] by auto
      have flag': "cl \<longleftrightarrow> (\<exists>q\<in>V \<union> ?G. ?big q)" using flag small by blast
      have "clearInv g0 (insert p D) (gr, V \<union> ?G, cl)"
        by (rule clearInvI [OF wf cells' vis' seen' flag'])
      with False show ?thesis unfolding step by simp
    qed
  qed
qed

lemma clearStep_fold_clearInv:
  "clearInv g0 D st \<Longrightarrow> \<forall>p\<in>set ps. inBoard p \<Longrightarrow> clearInv g0 (D \<union> set ps) (fold clearStep ps st)"
proof (induction ps arbitrary: D st)
  case Nil
  then show ?case by simp
next
  case (Cons p ps)
  from Cons.prems have "clearInv g0 (insert p D) (clearStep p st)"
    by (intro clearStep_keeps_clearInv) simp_all
  from Cons.IH [OF this] Cons.prems(2) show ?case by simp
qed

lemma set_scanOrder: "set scanOrder = {p. inBoard p}"
proof -
  have "set scanOrder = boardCells"
    by (auto simp: scanOrder_def boardCells_def)
  then show ?thesis by (auto simp: inBoard_boardCells)
qed

lemma clearGrid_clearInv:
  assumes "wf_grid gr"
  shows "clearInv gr {p. inBoard p} (clearGrid gr)"
proof -
  have "clearInv gr {} (gr, {}, False)" using assms by (simp add: clearInv_def)
  from clearStep_fold_clearInv [OF this, of scanOrder]
  show ?thesis by (simp add: clearGrid_def set_scanOrder)
qed

lemma clearGrid_cells:
  assumes wf: "wf_grid gr" and p: "inBoard p"
  shows "cell (fst (clearGrid gr)) (X p) (Y p) =
           (if cell gr (X p) (Y p) \<noteq> Empty \<and> 4 \<le> card (connectedGroup gr p) then Empty
            else cell gr (X p) (Y p))"
proof -
  obtain gr' V cl where r: "clearGrid gr = (gr', V, cl)" by (cases "clearGrid gr")
  from clearGrid_clearInv [OF wf] r
  have cells: "cell gr' (X p) (Y p) = (if p \<in> V \<and> 4 \<le> card (connectedGroup gr p) then Empty
                                     else cell gr (X p) (Y p))"
    and vis: "p \<in> V \<Longrightarrow> cell gr (X p) (Y p) \<noteq> Empty"
    and seen: "cell gr (X p) (Y p) \<noteq> Empty \<Longrightarrow> p \<in> V"
    using p by (auto simp: clearInv_def)
  from cells vis seen show ?thesis unfolding r by auto
qed


lemma clearGrid_wf: "wf_grid gr \<Longrightarrow> wf_grid (fst (clearGrid gr))"
  using clearGrid_clearInv [of gr] by (cases "clearGrid gr") (simp add: clearInv_def)

text \<open>
  C6. One pass of \<^verbatim>\<open>clearPuyos\<close> empties exactly the cells of the large groups: a
  non-empty board cell whose connected group (4-neighbours, same colour) has at least 4
  cells is Empty afterwards, whichever group of the board it belongs to, and every other
  cell, in particular every cell of a group of at most 3, keeps its colour. The Clearing
  step of \<^verbatim>\<open>ProcessChainStep\<close> leaves the board of this one pass.
\<close>

theorem clearPuyos_removes_large_groups:
  assumes "wf_grid (Grid (Field g))" and "inBoard p"
  shows "cell (Grid (Field (snd (clearPuyos g)))) (X p) (Y p) =
           (if cell (Grid (Field g)) (X p) (Y p) \<noteq> Empty \<and> 4 \<le> card (connectedGroup (Grid (Field g)) p)
            then Empty
            else cell (Grid (Field g)) (X p) (Y p))
       \<and> (State g = StateClearing \<longrightarrow> Field (snd (ProcessChainStep g)) = Field (snd (clearPuyos g)))"
proof -
  have "cell (Grid (Field (snd (clearPuyos g)))) (X p) (Y p) =
           (if cell (Grid (Field g)) (X p) (Y p) \<noteq> Empty \<and> 4 \<le> card (connectedGroup (Grid (Field g)) p)
            then Empty
            else cell (Grid (Field g)) (X p) (Y p))"
    using clearGrid_cells [OF assms] by (cases "clearGrid (Grid (Field g))") (simp add: clearPuyos_def)
  moreover have "State g = StateClearing \<longrightarrow> Field (snd (ProcessChainStep g)) = Field (snd (clearPuyos g))"
    by (cases "clearPuyos g") (simp add: ProcessChainStep_def)
  ultimately show ?thesis by simp
qed

theorem clearPuyos_removes_large_groups_witness:
  "wf_grid (Grid (Field clearingGame)) \<and> inBoard \<lparr>X = 3, Y = 11\<rparr>
   \<and> cell (Grid (Field clearingGame)) 3 11 = Red
   \<and> cell (Grid (Field (snd (clearPuyos clearingGame)))) 3 11 = Empty
   \<and> 4 \<le> card (connectedGroup (Grid (Field clearingGame)) \<lparr>X = 3, Y = 11\<rparr>)
   \<and> wf_grid (Grid (Field tripleGame)) \<and> inBoard \<lparr>X = 0, Y = 11\<rparr>
   \<and> cell (Grid (Field tripleGame)) 0 11 = Red
   \<and> cell (Grid (Field (snd (clearPuyos tripleGame)))) 0 11 = Red
   \<and> \<not> 4 \<le> card (connectedGroup (Grid (Field tripleGame)) \<lparr>X = 0, Y = 11\<rparr>)"
proof -
  have a: "wf_grid (Grid (Field clearingGame))" by code_simp
  have b: "inBoard \<lparr>X = 3, Y = 11\<rparr>" by code_simp
  have c: "cell (Grid (Field clearingGame)) 3 11 = Red" by code_simp
  have d: "cell (Grid (Field (snd (clearPuyos clearingGame)))) 3 11 = Empty" by code_simp
  have e: "wf_grid (Grid (Field tripleGame))" by code_simp
  have f: "inBoard \<lparr>X = 0, Y = 11\<rparr>" by code_simp
  have g: "cell (Grid (Field tripleGame)) 0 11 = Red" by code_simp
  have h: "cell (Grid (Field (snd (clearPuyos tripleGame)))) 0 11 = Red" by code_simp
  from clearPuyos_removes_large_groups [OF a b] c d
  have i: "4 \<le> card (connectedGroup (Grid (Field clearingGame)) \<lparr>X = 3, Y = 11\<rparr>)"
    by (simp split: if_splits)
  from clearPuyos_removes_large_groups [OF e f] g h
  have j: "\<not> 4 \<le> card (connectedGroup (Grid (Field tripleGame)) \<lparr>X = 0, Y = 11\<rparr>)"
    by (simp split: if_splits)
  from a b c d e f g h i j show ?thesis by simp
qed

section \<open>Chain totals\<close>













section \<open>Reachable games\<close>

text \<open>
  Every game the program can be in has a 12x6 grid, a chain depth that is not negative and
  the lock-delay threshold 32.
\<close>

lemma coreInv_Move: "coreInv (snd (Move dx dy rot g)) = coreInv g"
  by (simp add: Move_def Let_def shiftCurrent_def coreInv_def)

lemma coreInv_Drop: "coreInv (snd (Drop g)) = coreInv g"
  using coreInv_Move [of 0 1 0 g] by (simp add: Drop_eq coreInv_def)

lemma coreInv_hardDropLoop: "coreInv (hardDropLoop g) = coreInv g"
proof (induction g rule: hardDropLoop.induct)
  case (1 g)
  show ?case
  proof (cases "fst (Move 0 1 0 g)")
    case True
    with "1.IH" [OF True] show ?thesis
      by (subst hardDropLoop_unfold) (simp add: downStep_def coreInv_Move)
  next
    case False
    then show ?thesis by (subst hardDropLoop_unfold) simp
  qed
qed

lemma coreInv_HardDrop: "coreInv g \<Longrightarrow> coreInv (HardDrop g)"
  using coreInv_hardDropLoop [of g]
  by (simp add: HardDrop_def Let_def coreInv_def)

lemma wf_grid_PlacePuyo: "wf_grid (Grid f) \<Longrightarrow> wf_grid (Grid (PlacePuyo f x y c))"
  by (simp add: PlacePuyo_def wf_grid_set_cell)

lemma coreInv_LockPair: "coreInv g \<Longrightarrow> coreInv (LockPair g)"
  by (cases "Current g")
     (simp_all add: LockPair_def Let_def coreInv_def wf_grid_PlacePuyo)

lemma coreInv_SpawnNewPair: "coreInv g \<Longrightarrow> coreInv (SpawnNewPair g)"
  by (simp add: SpawnNewPair_def generatePuyoPair_def Intn_def Let_def coreInv_def
      split: prod.splits)

lemma calculateScore_frame:
  "Field (calculateScore g) = Field g" "MaxGroundFrames (calculateScore g) = MaxGroundFrames g"
  "ChainCount (calculateScore g) = ChainCount g"
  by (simp_all add: calculateScore_def Let_def)

lemma coreInv_calculateScore: "coreInv g \<Longrightarrow> coreInv (calculateScore g)"
  by (simp add: coreInv_def calculateScore_frame)

lemma coreInv_applyGravity: "coreInv g \<Longrightarrow> coreInv (applyGravity g)"
  by (simp add: coreInv_def applyGravity_def gravityGrid_columns(1))

lemma coreInv_clearPuyos: "coreInv g \<Longrightarrow> coreInv (snd (clearPuyos g))"
  using clearGrid_wf [of "Grid (Field g)"]
  by (cases "clearGrid (Grid (Field g))") (simp add: coreInv_def clearPuyos_def)

lemma coreInv_ProcessChainStep:
  assumes "coreInv g"
  shows "coreInv (snd (ProcessChainStep g))"
proof (cases "State g")
  case StateNormal
  with assms show ?thesis by (simp add: ProcessChainStep_def)
next
  case StateClearing
  from coreInv_clearPuyos [OF assms] have "coreInv (snd (clearPuyos g))" .
  then show ?thesis using StateClearing
    by (cases "clearPuyos g") (simp add: ProcessChainStep_def coreInv_def)
next
  case StateDropping
  let ?h = "applyGravity g"
  from assms have h: "coreInv ?h" by (rule coreInv_applyGravity)
  show ?thesis
  proof (cases "hasClearablePuyos ?h")
    case True
    with h StateDropping show ?thesis
      by (simp add: ProcessChainStep_def Let_def coreInv_def)
  next
    case False
    from h have "coreInv (calculateScore ?h)" by (rule coreInv_calculateScore)
    then have "coreInv ((calculateScore ?h)\<lparr>State := StateNormal\<rparr>)"
      by (simp add: coreInv_def)
    then have "coreInv (SpawnNewPair ((calculateScore ?h)\<lparr>State := StateNormal\<rparr>))"
      by (rule coreInv_SpawnNewPair)
    with False StateDropping show ?thesis by (simp add: ProcessChainStep_def Let_def)
  qed
qed

lemma wf_grid_NewField: "wf_grid (Grid NewField)"
  by (simp add: wf_grid_def NewField_def FieldHeight_def FieldWidth_def list_all_length)

lemma coreInv_NewGameWithColors: "coreInv (NewGameWithColors colorCount r)"
proof -
  have "coreInv (SpawnNewPair g)" if "coreInv g" for g using that by (rule coreInv_SpawnNewPair)
  then show ?thesis
    unfolding NewGameWithColors_def Let_def
    by (simp add: generatePuyoPair_def Intn_def Let_def coreInv_def wf_grid_NewField
        split: prod.splits)
qed

lemma reachable_coreInv: "reachable g \<Longrightarrow> coreInv g"
proof (induction rule: reachable.induct)
  case (start colorCount r)
  show ?case by (rule coreInv_NewGameWithColors)
next
  case (move g dx dy rot)
  then show ?case by (simp add: coreInv_Move)
next
  case (drop g)
  then show ?case by (simp add: coreInv_Drop)
next
  case (hard g)
  then show ?case by (simp add: coreInv_HardDrop)
next
  case (lock g)
  then show ?case by (simp add: coreInv_LockPair)
next
  case (chain g)
  then show ?case by (simp add: coreInv_ProcessChainStep)
next
  case (pause g)
  then show ?case by (simp add: TogglePause_def coreInv_def)
next
  case (frame g)
  then show ?case by (simp add: coreInv_def)
qed

lemma reachableIn_reachable: "reachableIn n g \<Longrightarrow> reachable g"
  by (induction rule: reachableIn.induct) (auto intro: reachable.intros)

lemma reachable_reachableIn: "reachable g \<Longrightarrow> \<exists>n. reachableIn n g"
  by (induction rule: reachable.induct) (blast intro: reachableIn.intros)+

lemma reachable_settledGame: "reachable settledGame"
  unfolding settledGame_def clearingGame_def lockedTwice_def lockedOnce_def NewGame_def
  by (intro reachable.chain reachable.lock reachable.hard reachable.start)

text \<open>
  After at most 2^31 operations the chain depth and the lines cleared are far from the
  ends of the int64 range, so the level is in step with the lines cleared and the sum
  \<^verbatim>\<open>g.LinesCleared + g.ChainCount\<close> of \<^verbatim>\<open>calculateScore\<close> does not wrap.
\<close>

lemma stepInv_same:
  assumes "stepInv n g" "ChainCount h = ChainCount g" "LinesCleared h = LinesCleared g"
    "Level h = Level g"
  shows "stepInv (Suc n) h"
proof -
  have "int n * int n \<le> int (Suc n) * int (Suc n)" by (intro mult_mono) simp_all
  with assms show ?thesis by (simp add: stepInv_def levelInStep_def)
qed

lemma totals_Move:
  "ChainCount (snd (Move dx dy rot g)) = ChainCount g"
  "LinesCleared (snd (Move dx dy rot g)) = LinesCleared g"
  "Level (snd (Move dx dy rot g)) = Level g"
  by (simp_all add: Move_def Let_def shiftCurrent_def)

lemma totals_hardDropLoop:
  "ChainCount (hardDropLoop g) = ChainCount g \<and> LinesCleared (hardDropLoop g) = LinesCleared g
   \<and> Level (hardDropLoop g) = Level g"
proof (induction g rule: hardDropLoop.induct)
  case (1 g)
  show ?case
  proof (cases "fst (Move 0 1 0 g)")
    case True
    with "1.IH" [OF True] show ?thesis
      by (subst (1 2 3) hardDropLoop_unfold) (simp add: downStep_def totals_Move)
  next
    case False
    then show ?thesis by (subst (1 2 3) hardDropLoop_unfold) simp
  qed
qed

lemma stepInv_inInt64:
  assumes "stepInv n g" "n \<le> 2 ^ 31"
  shows "inInt64 (LinesCleared g + ChainCount g)"
proof -
  from assms(2) have n: "int n \<le> 2 ^ 31" by (metis of_nat_le_iff of_nat_numeral of_nat_power)
  then have "int n * int n \<le> 2 ^ 31 * 2 ^ 31" by (intro mult_mono) simp_all
  with assms(1) n show ?thesis by (simp add: stepInv_def levelInStep_def inInt64_def)
qed

lemma stepInv_settle:
  assumes "stepInv n g" "n \<le> 2 ^ 31" "ChainCount h = 0"
    "LinesCleared h = LinesCleared (calculateScore g)" "Level h = Level (calculateScore g)"
  shows "stepInv (Suc n) h"
proof -
  note f = stepInv_inInt64 [OF assms(1,2)]
  from assms(1) have c: "0 \<le> ChainCount g" "ChainCount g \<le> int n"
    and l: "LinesCleared g \<le> int n * int n" and s: "levelInStep g"
    by (simp_all add: stepInv_def)
  have lv: "levelInStep (calculateScore g)" using s c(1) f by (rule calculateScore_levelInStep)
  have "LinesCleared (calculateScore g) \<le> LinesCleared g + ChainCount g"
    using c(1) f by (cases "0 < ChainCount g")
      (simp_all add: calculateScore_LinesCleared calculateScore_idle i64_id)
  also have "\<dots> \<le> int n * int n + int n" using c l by simp
  also have "\<dots> \<le> int (Suc n) * int (Suc n)" by (simp add: algebra_simps)
  finally have b: "LinesCleared (calculateScore g) \<le> int (Suc n) * int (Suc n)" .
  from lv b assms(3,4,5) show ?thesis by (simp add: stepInv_def levelInStep_def)
qed

lemma stepInv_ProcessChainStep:
  assumes "stepInv n g" "n \<le> 2 ^ 31"
  shows "stepInv (Suc n) (snd (ProcessChainStep g))"
proof (cases "State g")
  case StateNormal
  then have "snd (ProcessChainStep g) = g" by (simp add: ProcessChainStep_def)
  with assms(1) show ?thesis by (simp add: stepInv_same)
next
  case StateClearing
  then have "ChainCount (snd (ProcessChainStep g)) = ChainCount g
           \<and> LinesCleared (snd (ProcessChainStep g)) = LinesCleared g
           \<and> Level (snd (ProcessChainStep g)) = Level g"
    by (cases "clearGrid (Grid (Field g))") (simp add: ProcessChainStep_def clearPuyos_def)
  with assms(1) show ?thesis by (simp add: stepInv_same)
next
  case StateDropping
  let ?h = "applyGravity g"
  have h: "stepInv n ?h"
    using assms(1) by (simp add: stepInv_def levelInStep_def applyGravity_totals)
  show ?thesis
  proof (cases "hasClearablePuyos ?h")
    case True
    have "int n * int n \<le> int (Suc n) * int (Suc n)" by (intro mult_mono) simp_all
    with True StateDropping h show ?thesis
      by (simp add: ProcessChainStep_def Let_def stepInv_def levelInStep_def)
  next
    case False
    let ?k = "SpawnNewPair ((calculateScore ?h)\<lparr>State := StateNormal\<rparr>)"
    have c0: "ChainCount ?k = 0"
      by (simp add: SpawnNewPair_def generatePuyoPair_def Intn_def Let_def split: prod.splits)
    have "stepInv (Suc n) ?k"
      by (rule stepInv_settle [OF h assms(2) c0]) (simp_all add: SpawnNewPair_totals)
    with False StateDropping show ?thesis by (simp add: ProcessChainStep_def Let_def)
  qed
qed

lemma stepInv_NewGameWithColors: "stepInv 0 (NewGameWithColors colorCount r)"
proof -
  have "stepInv 0 (SpawnNewPair g)" if "LinesCleared g = 0" "Level g = 1" for g
    using that
    by (simp add: SpawnNewPair_def generatePuyoPair_def Intn_def Let_def stepInv_def
        levelInStep_def split: prod.splits)
  then show ?thesis
    unfolding NewGameWithColors_def Let_def
    by (simp add: generatePuyoPair_def Intn_def Let_def split: prod.splits)
qed

lemma reachableIn_stepInv: "reachableIn n g \<Longrightarrow> n \<le> 2 ^ 31 \<Longrightarrow> stepInv n g"
proof (induction rule: reachableIn.induct)
  case (start colorCount r)
  show ?case by (rule stepInv_NewGameWithColors)
next
  case (move n g dx dy rot)
  then show ?case by (simp add: stepInv_same totals_Move)
next
  case (drop n g)
  then show ?case by (simp add: stepInv_same Drop_eq totals_Move)
next
  case (hard n g)
  then show ?case by (simp add: stepInv_same HardDrop_def Let_def totals_hardDropLoop)
next
  case (lock n g)
  then have s: "stepInv n g" by simp
  show ?case
  proof (cases "Current g")
    case None
    with s show ?thesis by (simp add: LockPair_def stepInv_same)
  next
    case (Some cur)
    have "int n * int n \<le> int (Suc n) * int (Suc n)" by (intro mult_mono) simp_all
    with s Some show ?thesis by (simp add: LockPair_def Let_def stepInv_def levelInStep_def)
  qed
next
  case (chain n g)
  then show ?case by (simp add: stepInv_ProcessChainStep)
next
  case (pause n g)
  then show ?case by (simp add: stepInv_same TogglePause_def)
next
  case (frame n g)
  then show ?case by (simp add: stepInv_same)
qed

lemma reachableIn_levelInStep:
  assumes "reachableIn n g" "n \<le> 2 ^ 31"
  shows "levelInStep g \<and> inInt64 (LinesCleared g + ChainCount g)"
  using reachableIn_stepInv [OF assms] stepInv_inInt64 [OF _ assms(2), of g]
  by (simp add: stepInv_def)

lemma reachableIn_settledGame: "reachableIn 7 settledGame"
proof -
  have "reachableIn (Suc (Suc (Suc (Suc (Suc (Suc (Suc 0))))))) settledGame"
    unfolding settledGame_def clearingGame_def lockedTwice_def lockedOnce_def NewGame_def
    by (intro reachableIn.chain reachableIn.lock reachableIn.hard reachableIn.start)
  then show ?thesis by (simp add: numeral_eq_Suc)
qed

end
